theory Spec2Isabelle
  imports Main "HOL-Library.Word" "HOL-Library.Monad_Syntax"
begin

section \<open>Nodes, cursors and the node store\<close>

text \<open>
  A cursor (\<open>ForwardNodeIterator\<close>) wraps one pointer \<open>nodePtr\<close>; the null pointer is the
  word \<open>0\<close>, and \<open>operator bool\<close> of a cursor is \<open>p \<noteq> 0\<close>.  An element embeds an
  \<open>IntrusiveNode\<close> (the two cursors \<open>prev\<close> and \<open>next\<close>) next to its own payload \<open>val\<close>.
  The store maps every address to the element that lives there.  Dereferencing the null
  cursor is undefined behaviour in the source; every operation below returns \<open>None\<close> in
  that case (and a loop that does not return has the value \<open>None\<close> as well).
\<close>

type_synonym ptr = "64 word"

record 'a node =
  prev :: ptr
  "next" :: ptr
  val :: 'a

type_synonym 'a heap = "ptr \<Rightarrow> 'a node"

definition set_prev :: "'a heap \<Rightarrow> ptr \<Rightarrow> ptr \<Rightarrow> 'a heap" where
  "set_prev h p v = h(p := (h p)\<lparr>prev := v\<rparr>)"

definition set_next :: "'a heap \<Rightarrow> ptr \<Rightarrow> ptr \<Rightarrow> 'a heap" where
  "set_next h p v = h(p := (h p)\<lparr>next := v\<rparr>)"

text \<open>\<open>ForwardNodeIteratorBase::Increment\<close> and \<open>Decrement\<close>: follow \<open>next\<close>, follow \<open>prev\<close>.\<close>

definition Increment :: "'a heap \<Rightarrow> ptr \<Rightarrow> ptr option" where
  "Increment h it = (if it = 0 then None else Some (next (h it)))"

definition Decrement :: "'a heap \<Rightarrow> ptr \<Rightarrow> ptr option" where
  "Decrement h it = (if it = 0 then None else Some (prev (h it)))"

text \<open>
  \<open>IntrusiveNode::AttachPrev(node)\<close>, \<open>AttachNext(node)\<close> and \<open>Detach()\<close>, statement by
  statement; \<open>this\<close> is the first pointer argument.  Every read goes to the store as the
  preceding statements left it.
\<close>

definition AttachPrev :: "'a heap \<Rightarrow> ptr \<Rightarrow> ptr \<Rightarrow> 'a heap option" where
  "AttachPrev h this node =
     (if this = 0 \<or> node = 0 then None
      else
        let h1 = set_prev h this (prev (h node));
            h2 = set_next h1 this node;
            h3 = (if prev (h2 node) \<noteq> 0 then set_next h2 (prev (h2 node)) this else h2)
        in Some (set_prev h3 node this))"

definition AttachNext :: "'a heap \<Rightarrow> ptr \<Rightarrow> ptr \<Rightarrow> 'a heap option" where
  "AttachNext h this node =
     (if this = 0 \<or> node = 0 then None
      else
        let h1 = set_prev h this node;
            h2 = set_next h1 this (next (h1 node));
            h3 = (if next (h2 node) \<noteq> 0 then set_prev h2 (next (h2 node)) this else h2)
        in Some (set_next h3 node this))"

definition Detach :: "'a heap \<Rightarrow> ptr \<Rightarrow> 'a heap option" where
  "Detach h this =
     (if this = 0 then None
      else
        let h1 = (if prev (h this) \<noteq> 0 then set_next h (prev (h this)) (next (h this)) else h);
            h2 = (if next (h1 this) \<noteq> 0 then set_prev h1 (next (h1 this)) (prev (h1 this)) else h1);
            h3 = set_prev h2 this 0
        in Some (set_next h3 this 0))"

section \<open>The list object\<close>

text \<open>
  \<open>IntrusiveList<T, Enable>\<close>: the template switch \<open>Enable\<close>, the cursors \<open>head\<close> and
  \<open>last\<close>, and the \<open>std::size_t\<close> counter of \<open>RecordLength<true>\<close> (a 64-bit word; it is
  read and written only where \<open>Enable\<close> holds).  A list object is passed in and returned
  updated; where an operation takes a second list (\<open>other\<close>, \<open>rhs\<close>), the two are
  distinct objects.
\<close>

record ilist =
  Enable :: bool
  head :: ptr
  last_p :: ptr
  length_n :: "64 word"

definition empty_list :: "bool \<Rightarrow> ilist" where
  "empty_list en = \<lparr>Enable = en, head = 0, last_p = 0, length_n = 0\<rparr>"

definition GetLength :: "ilist \<Rightarrow> 64 word" where
  "GetLength L = length_n L"

definition SetToZero :: "ilist \<Rightarrow> ilist" where
  "SetToZero L = L\<lparr>length_n := 0\<rparr>"

definition IncLength :: "ilist \<Rightarrow> ilist" where
  "IncLength L = L\<lparr>length_n := length_n L + 1\<rparr>"

definition DecLength :: "ilist \<Rightarrow> ilist" where
  "DecLength L = L\<lparr>length_n := length_n L - 1\<rparr>"

definition GetHead :: "ilist \<Rightarrow> ptr" where
  "GetHead L = head L"

definition GetLast :: "ilist \<Rightarrow> ptr" where
  "GetLast L = last_p L"

definition IsEmpty :: "ilist \<Rightarrow> bool" where
  "IsEmpty L = (\<not> head L \<noteq> 0 \<and> \<not> last_p L \<noteq> 0)"

text \<open>\<open>Clear\<close> assigns \<open>head\<close>, then \<open>last\<close> from it, and never touches the store.\<close>

definition Clear :: "'a heap \<Rightarrow> ilist \<Rightarrow> 'a heap \<times> ilist" where
  "Clear h L =
     (let L1 = L\<lparr>head := 0\<rparr>;
          L2 = L1\<lparr>last_p := head L1\<rparr>
      in (h, if Enable L2 then SetToZero L2 else L2))"

definition InsertPrev :: "'a heap \<Rightarrow> ilist \<Rightarrow> ptr \<Rightarrow> ptr \<Rightarrow> ('a heap \<times> ilist \<times> ptr) option" where
  "InsertPrev h L curNode newNode = do {
     h1 \<leftarrow> Detach h newNode;
     (h2, L2) \<leftarrow>
       (if IsEmpty L then Some (h1, L\<lparr>head := newNode, last_p := newNode\<rparr>)
        else do {
          h2 \<leftarrow> AttachPrev h1 newNode curNode;
          Some (h2, if curNode = head L then L\<lparr>head := newNode\<rparr> else L)
        });
     Some (h2, if Enable L2 then IncLength L2 else L2, newNode)
   }"

definition InsertNext :: "'a heap \<Rightarrow> ilist \<Rightarrow> ptr \<Rightarrow> ptr \<Rightarrow> ('a heap \<times> ilist \<times> ptr) option" where
  "InsertNext h L curNode newNode = do {
     h1 \<leftarrow> Detach h newNode;
     (h2, L2) \<leftarrow>
       (if IsEmpty L then Some (h1, L\<lparr>head := newNode, last_p := newNode\<rparr>)
        else do {
          h2 \<leftarrow> AttachNext h1 newNode curNode;
          Some (h2, if curNode = last_p L then L\<lparr>last_p := newNode\<rparr> else L)
        });
     Some (h2, if Enable L2 then IncLength L2 else L2, newNode)
   }"

definition InsertHead :: "'a heap \<Rightarrow> ilist \<Rightarrow> ptr \<Rightarrow> ('a heap \<times> ilist \<times> ptr) option" where
  "InsertHead h L newNode = InsertPrev h L (head L) newNode"

definition InsertLast :: "'a heap \<Rightarrow> ilist \<Rightarrow> ptr \<Rightarrow> ('a heap \<times> ilist \<times> ptr) option" where
  "InsertLast h L newNode = InsertNext h L (last_p L) newNode"

definition Remove :: "'a heap \<Rightarrow> ilist \<Rightarrow> ptr \<Rightarrow> ('a heap \<times> ilist) option" where
  "Remove h L curNode = do {
     L1 \<leftarrow> (if curNode = head L
            then do { p \<leftarrow> Increment h (head L); Some (L\<lparr>head := p\<rparr>) }
            else Some L);
     L2 \<leftarrow> (if curNode = last_p L1
            then do { p \<leftarrow> Decrement h (last_p L1); Some (L1\<lparr>last_p := p\<rparr>) }
            else Some L1);
     h1 \<leftarrow> Detach h curNode;
     Some (h1, if Enable L2 then DecLength L2 else L2)
   }"



text \<open>
  The overloads that take the list \<open>other\<close> the node comes from.  They return the store,
  this list, \<open>other\<close>, and the cursor.
\<close>

definition InsertPrev_from ::
  "'a heap \<Rightarrow> ilist \<Rightarrow> ptr \<Rightarrow> ptr \<Rightarrow> ilist \<Rightarrow> ('a heap \<times> ilist \<times> ilist \<times> ptr) option" where
  "InsertPrev_from h L curNode newNode other = do {
     (h1, other1) \<leftarrow> Remove h other newNode;
     (h2, L2, r) \<leftarrow> InsertPrev h1 L curNode newNode;
     Some (h2, L2, other1, r)
   }"

definition InsertNext_from ::
  "'a heap \<Rightarrow> ilist \<Rightarrow> ptr \<Rightarrow> ptr \<Rightarrow> ilist \<Rightarrow> ('a heap \<times> ilist \<times> ilist \<times> ptr) option" where
  "InsertNext_from h L curNode newNode other = do {
     (h1, other1) \<leftarrow> Remove h other newNode;
     (h2, L2, r) \<leftarrow> InsertNext h1 L curNode newNode;
     Some (h2, L2, other1, r)
   }"

definition InsertHead_from ::
  "'a heap \<Rightarrow> ilist \<Rightarrow> ptr \<Rightarrow> ilist \<Rightarrow> ('a heap \<times> ilist \<times> ilist \<times> ptr) option" where
  "InsertHead_from h L newNode other = do {
     (h1, other1) \<leftarrow> Remove h other newNode;
     (h2, L2, r) \<leftarrow> InsertHead h1 L newNode;
     Some (h2, L2, other1, r)
   }"

definition InsertLast_from ::
  "'a heap \<Rightarrow> ilist \<Rightarrow> ptr \<Rightarrow> ilist \<Rightarrow> ('a heap \<times> ilist \<times> ilist \<times> ptr) option" where
  "InsertLast_from h L newNode other = do {
     (h1, other1) \<leftarrow> Remove h other newNode;
     (h2, L2, r) \<leftarrow> InsertLast h1 L newNode;
     Some (h2, L2, other1, r)
   }"



section \<open>Loops over a list\<close>

text \<open>
  The heterogeneous move constructor \<open>IntrusiveList(IntrusiveList<U, Enable_>&& other)\<close>
  is a range-based \<open>for\<close> over \<open>other\<close>: the cursor starts at \<open>other.begin()\<close>, the body
  runs \<open>InsertLast(e, other)\<close> on the element \<open>e\<close> under the cursor, and only then the
  cursor is incremented, reading \<open>next\<close> of that element from the store as the body left
  it.  The loop ends when the cursor equals \<open>other.end()\<close>, the null cursor.
\<close>

partial_function (option) move_from_loop ::
  "'a heap \<Rightarrow> ilist \<Rightarrow> ilist \<Rightarrow> ptr \<Rightarrow> ('a heap \<times> ilist \<times> ilist) option" where
  "move_from_loop h L other it =
     (if it = 0 then Some (h, L, other)
      else do {
        (h1, L1, other1, r) \<leftarrow> InsertLast_from h L it other;
        it1 \<leftarrow> Increment h1 it;
        move_from_loop h1 L1 other1 it1
      })"

definition move_construct_from :: "bool \<Rightarrow> 'a heap \<Rightarrow> ilist \<Rightarrow> ('a heap \<times> ilist \<times> ilist) option" where
  "move_construct_from en h other = move_from_loop h (empty_list en) other (head other)"

text \<open>
  The loop of \<open>operator+=\<close> and of \<open>operator+\<close>: \<open>prev = iter++\<close> saves the cursor and
  advances it before \<open>InsertLast(prev, rhs)\<close> moves the saved element.
\<close>

partial_function (option) drain_loop ::
  "'a heap \<Rightarrow> ilist \<Rightarrow> ilist \<Rightarrow> ptr \<Rightarrow> ('a heap \<times> ilist \<times> ilist) option" where
  "drain_loop h L rhs iter =
     (if iter = 0 then Some (h, L, rhs)
      else do {
        iter1 \<leftarrow> Increment h iter;
        (h1, L1, rhs1, r) \<leftarrow> InsertLast_from h L iter rhs;
        drain_loop h1 L1 rhs1 iter1
      })"


text \<open>\<open>operator+\<close> returns the store, the new list \<open>tmp\<close>, and both operands.\<close>

definition plus :: "'a heap \<Rightarrow> ilist \<Rightarrow> ilist \<Rightarrow> ('a heap \<times> ilist \<times> ilist \<times> ilist) option" where
  "plus h lhs rhs = do {
     (h1, tmp1, lhs1) \<leftarrow> drain_loop h (empty_list (Enable lhs \<or> Enable rhs)) lhs (head lhs);
     (h2, tmp2, rhs2) \<leftarrow> drain_loop h1 tmp1 rhs (head rhs);
     Some (h2, tmp2, lhs1, rhs2)
   }"

text \<open>
  Traversal: from \<open>begin()\<close> (the head) by \<open>++\<close> to the null cursor, and from \<open>rbegin()\<close> (the
  last) by the reverse cursor's \<open>++\<close>, which follows \<open>prev\<close>.  The result lists the
  addresses visited.
\<close>

partial_function (option) walk :: "'a heap \<Rightarrow> ptr \<Rightarrow> ptr list option" where
  "walk h it = (if it = 0 then Some [] else do { r \<leftarrow> walk h (next (h it)); Some (it # r) })"

partial_function (option) rwalk :: "'a heap \<Rightarrow> ptr \<Rightarrow> ptr list option" where
  "rwalk h it = (if it = 0 then Some [] else do { r \<leftarrow> rwalk h (prev (h it)); Some (it # r) })"

definition traverse :: "'a heap \<Rightarrow> ilist \<Rightarrow> ptr list option" where
  "traverse h L = walk h (head L)"

definition rtraverse :: "'a heap \<Rightarrow> ilist \<Rightarrow> ptr list option" where
  "rtraverse h L = rwalk h (last_p L)"

section \<open>Comparison\<close>

text \<open>
  \<open>operator==\<close> is \<open>std::equal\<close> and \<open>operator<=>\<close> is
  \<open>std::lexicographical_compare_three_way\<close> on the two ranges \<open>begin()\<close> .. \<open>end()\<close>.  Both
  are library algorithms over bidirectional cursors, modelled as the C++ standard gives
  them; the elements' own \<open>==\<close> and \<open><=>\<close> are the parameters \<open>eq\<close> and \<open>cmp\<close>, which
  see the whole element (links and payload).
\<close>

datatype ordering = Less | Equivalent | Greater | Unordered

partial_function (option) std_equal ::
  "('a node \<Rightarrow> 'a node \<Rightarrow> bool) \<Rightarrow> 'a heap \<Rightarrow> ptr \<Rightarrow> ptr \<Rightarrow> bool option" where
  "std_equal eq h first1 first2 =
     (if first1 \<noteq> 0 \<and> first2 \<noteq> 0
      then (if \<not> eq (h first1) (h first2) then Some False
            else std_equal eq h (next (h first1)) (next (h first2)))
      else Some (first1 = 0 \<and> first2 = 0))"

partial_function (option) lexicographical_compare_three_way ::
  "('a node \<Rightarrow> 'a node \<Rightarrow> ordering) \<Rightarrow> 'a heap \<Rightarrow> ptr \<Rightarrow> ptr \<Rightarrow> ordering option" where
  "lexicographical_compare_three_way cmp h first1 first2 =
     (if first1 \<noteq> 0 \<and> first2 \<noteq> 0
      then (if cmp (h first1) (h first2) \<noteq> Equivalent then Some (cmp (h first1) (h first2))
            else lexicographical_compare_three_way cmp h (next (h first1)) (next (h first2)))
      else Some (if first1 \<noteq> 0 then Greater else if first2 \<noteq> 0 then Less else Equivalent))"

definition list_eq :: "('a node \<Rightarrow> 'a node \<Rightarrow> bool) \<Rightarrow> 'a heap \<Rightarrow> ilist \<Rightarrow> ilist \<Rightarrow> bool option" where
  "list_eq eq h lhs rhs = std_equal eq h (head lhs) (head rhs)"

definition list_cmp ::
  "('a node \<Rightarrow> 'a node \<Rightarrow> ordering) \<Rightarrow> 'a heap \<Rightarrow> ilist \<Rightarrow> ilist \<Rightarrow> ordering option" where
  "list_cmp cmp h lhs rhs = lexicographical_compare_three_way cmp h (head lhs) (head rhs)"

section \<open>The abstract sequence of a list\<close>

text \<open>
  The data-model invariant.  A list object \<open>L\<close> holds the sequence \<open>xs\<close> of distinct non-null
  addresses in the store \<open>h\<close> when every element's \<open>next\<close> and \<open>prev\<close> are its neighbours in
  \<open>xs\<close> (null at the ends), \<open>head\<close> and \<open>last\<close> are the two ends (null when \<open>xs\<close> is empty), and
  the counter, where it exists, is the number of elements.
\<close>

fun hd0 :: "ptr list \<Rightarrow> ptr" where
  "hd0 [] = 0"
| "hd0 (x # xs) = x"

fun succ_in :: "ptr list \<Rightarrow> ptr \<Rightarrow> ptr" where
  "succ_in [] x = 0"
| "succ_in [y] x = 0"
| "succ_in (y # z # zs) x = (if x = y then z else succ_in (z # zs) x)"

definition pred_in :: "ptr list \<Rightarrow> ptr \<Rightarrow> ptr" where
  "pred_in xs x = succ_in (rev xs) x"

definition links :: "'a heap \<Rightarrow> ptr list \<Rightarrow> bool" where
  "links h xs \<longleftrightarrow>
     distinct xs \<and> 0 \<notin> set xs \<and>
     (\<forall>x \<in> set xs. next (h x) = succ_in xs x \<and> prev (h x) = pred_in xs x)"

definition dll :: "'a heap \<Rightarrow> ilist \<Rightarrow> ptr list \<Rightarrow> bool" where
  "dll h L xs \<longleftrightarrow>
     links h xs \<and> head L = hd0 xs \<and> last_p L = hd0 (rev xs) \<and>
     (Enable L \<longrightarrow> length_n L = of_nat (length xs))"

fun insert_after :: "ptr \<Rightarrow> ptr \<Rightarrow> ptr list \<Rightarrow> ptr list" where
  "insert_after c n [] = []"
| "insert_after c n (x # xs) = (if x = c then x # n # xs else x # insert_after c n xs)"

fun insert_before :: "ptr \<Rightarrow> ptr \<Rightarrow> ptr list \<Rightarrow> ptr list" where
  "insert_before c n [] = []"
| "insert_before c n (x # xs) = (if x = c then n # x # xs else x # insert_before c n xs)"

text \<open>
  A node \<open>n\<close> is outside the sequence \<open>xs\<close> when it is a real node, is not an element of
  \<open>xs\<close>, and neither of its link fields designates an element of \<open>xs\<close> (a detached node is
  outside every sequence that does not contain it).
\<close>

definition outside :: "'a heap \<Rightarrow> ptr \<Rightarrow> ptr list \<Rightarrow> bool" where
  "outside h n xs \<longleftrightarrow> n \<noteq> 0 \<and> n \<notin> set xs \<and> prev (h n) \<notin> set xs \<and> next (h n) \<notin> set xs"

section \<open>A sequence of tail insertions\<close>

text \<open>\<open>InsertLast\<close> called on the elements of \<open>xs\<close> one after the other, as the test does.\<close>

fun InsertLast_all :: "'a heap \<Rightarrow> ilist \<Rightarrow> ptr list \<Rightarrow> ('a heap \<times> ilist) option" where
  "InsertLast_all h L [] = Some (h, L)"
| "InsertLast_all h L (x # xs) = do { (h1, L1, r) \<leftarrow> InsertLast h L x; InsertLast_all h1 L1 xs }"

section \<open>What the specification says of comparison and of the invariant\<close>

text \<open>
  The specification's words for the two comparisons, on the sequences of element values:
  equal when the lengths agree and the values agree position by position; ordered by the
  first position where the elements differ, and by length when one is a prefix of the other.
  \<open>list_inv\<close> is the invariant as the specification words it for one list object: \<open>head\<close> is
  null exactly when \<open>last\<close> is, and a tracked counter equals the number of elements met
  when walking from \<open>head\<close> by \<open>next\<close> to null.
\<close>

definition spec_equal :: "('v \<Rightarrow> 'v \<Rightarrow> bool) \<Rightarrow> 'v list \<Rightarrow> 'v list \<Rightarrow> bool" where
  "spec_equal eq vs ws \<longleftrightarrow> length vs = length ws \<and> list_all (\<lambda>(v, w). eq v w) (zip vs ws)"

definition spec_compare :: "('v \<Rightarrow> 'v \<Rightarrow> ordering) \<Rightarrow> 'v list \<Rightarrow> 'v list \<Rightarrow> ordering" where
  "spec_compare cmp vs ws =
     (case find (\<lambda>(v, w). cmp v w \<noteq> Equivalent) (zip vs ws) of
        Some (v, w) \<Rightarrow> cmp v w
      | None \<Rightarrow> if length vs < length ws then Less
                else if length ws < length vs then Greater else Equivalent)"


section \<open>A three-element list\<close>

text \<open>
  The list built by the repository's test from \<open>v1\<close>, \<open>v2\<close>, \<open>v3\<close>, at the addresses 1, 2 and
  3, with a fourth element at address 4 whose links are null; every other address holds a
  detached element.
\<close>

definition ex_h :: "int heap" where
  "ex_h = (\<lambda>_. \<lparr>prev = 0, next = 0, val = 0\<rparr>)
     (1 := \<lparr>prev = 0, next = 2, val = 1\<rparr>,
      2 := \<lparr>prev = 1, next = 3, val = 2\<rparr>,
      3 := \<lparr>prev = 2, next = 0, val = 3\<rparr>,
      4 := \<lparr>prev = 0, next = 0, val = 4\<rparr>)"

definition ex_L :: ilist where
  "ex_L = \<lparr>Enable = True, head = 1, last_p = 3, length_n = 3\<rparr>"

text \<open>A second list, holding only the element at address 4.\<close>

definition ex_L4 :: ilist where
  "ex_L4 = \<lparr>Enable = True, head = 4, last_p = 4, length_n = 1\<rparr>"

text \<open>The ordering of two test elements by their payload.\<close>

definition ex_cmp :: "int node \<Rightarrow> int node \<Rightarrow> ordering" where
  "ex_cmp a b = (if val a < val b then Less else if val a = val b then Equivalent else Greater)"

section \<open>Neighbours in a sequence\<close>

lemma succ_in_notin: "x \<notin> set xs \<Longrightarrow> succ_in xs x = 0"
  by (induction xs x rule: succ_in.induct) auto

lemma succ_in_mem: "succ_in xs x \<noteq> 0 \<Longrightarrow> succ_in xs x \<in> set xs"
  by (induction xs x rule: succ_in.induct) (auto split: if_splits)

lemma hd0_mem0: "hd0 xs \<noteq> 0 \<Longrightarrow> hd0 xs \<in> set xs"
  by (cases xs) auto

lemma succ_in_dom: "succ_in xs x \<noteq> 0 \<Longrightarrow> x \<in> set xs"
  using succ_in_notin by blast

lemma succ_in_Cons: "succ_in (y # ys) x = (if x = y then hd0 ys else succ_in ys x)"
  if "y \<notin> set ys"
  using that by (cases ys) (auto simp: succ_in_notin)

lemma succ_in_decomp: "distinct (as @ x # bs) \<Longrightarrow> succ_in (as @ x # bs) x = hd0 bs"
  by (induction as) (auto simp: succ_in_Cons)

lemma succ_in_neq_self: "distinct xs \<Longrightarrow> 0 \<notin> set xs \<Longrightarrow> x \<in> set xs \<Longrightarrow> succ_in xs x \<noteq> x"
  by (induction xs x rule: succ_in.induct) (auto split: if_splits)

lemma succ_in_adj:
  "distinct xs \<Longrightarrow> x \<noteq> 0 \<Longrightarrow> (succ_in xs y = x) = (\<exists>as bs. xs = as @ y # x # bs)"
proof (induction xs y rule: succ_in.induct)
  case (3 a b zs y)
  show ?case
  proof (cases "y = a")
    case True
    with 3 show ?thesis 
      apply (auto simp: Cons_eq_append_conv)
      done
  next
    case False
    with 3 show ?thesis
      apply (auto simp: Cons_eq_append_conv)
      done
  qed
qed (auto simp: Cons_eq_append_conv)

lemma pred_in_adj:
  "distinct xs \<Longrightarrow> y \<noteq> 0 \<Longrightarrow> (pred_in xs x = y) = (\<exists>as bs. xs = as @ y # x # bs)"
proof -
  assume d: "distinct xs" and y: "y \<noteq> 0"
  have "(pred_in xs x = y) = (\<exists>as bs. rev xs = as @ x # y # bs)"
    unfolding pred_in_def using d y by (simp add: succ_in_adj)
  also have "\<dots> = (\<exists>as bs. xs = as @ y # x # bs)"
  proof
    assume "\<exists>as bs. rev xs = as @ x # y # bs"
    then obtain as bs where "rev xs = as @ x # y # bs" by blast
    then have "xs = rev bs @ y # x # rev as" by (simp add: rev_swap)
    then show "\<exists>as bs. xs = as @ y # x # bs" by blast
  next
    assume "\<exists>as bs. xs = as @ y # x # bs"
    then obtain as bs where "xs = as @ y # x # bs" by blast
    then have "rev xs = rev bs @ x # y # rev as" by simp
    then show "\<exists>as bs. rev xs = as @ x # y # bs" by blast
  qed
  finally show ?thesis .
qed

lemma succ_pred_iff:
  "distinct xs \<Longrightarrow> x \<noteq> 0 \<Longrightarrow> y \<noteq> 0 \<Longrightarrow> (succ_in xs y = x) = (pred_in xs x = y)"
  by (simp add: succ_in_adj pred_in_adj)

lemma pred_in_notin: "x \<notin> set xs \<Longrightarrow> pred_in xs x = 0"
  by (simp add: pred_in_def succ_in_notin)

lemma pred_in_mem: "pred_in xs x \<noteq> 0 \<Longrightarrow> pred_in xs x \<in> set xs"
  using succ_in_mem[of "rev xs" x] by (simp add: pred_in_def)

lemma pred_in_decomp: "distinct (as @ x # bs) \<Longrightarrow> pred_in (as @ x # bs) x = hd0 (rev as)"
proof -
  assume "distinct (as @ x # bs)"
  then have "distinct (rev bs @ x # rev as)" by auto
  from succ_in_decomp[OF this] show ?thesis by (simp add: pred_in_def)
qed

lemma succ_in_remove1:
  "distinct xs \<Longrightarrow> y \<noteq> x \<Longrightarrow> x \<noteq> 0 \<Longrightarrow>
   succ_in (remove1 x xs) y = (if succ_in xs y = x then succ_in xs x else succ_in xs y)"
  apply (induction xs y rule: succ_in.induct)
    apply (auto simp: succ_in_Cons succ_in_notin split: if_splits dest: succ_in_mem hd0_mem0)
  done

lemma rev_remove1: "distinct xs \<Longrightarrow> rev (remove1 x xs) = remove1 x (rev xs)"
  by (induction xs) (auto simp: remove1_append remove1_idem)

lemma pred_in_remove1:
  "distinct xs \<Longrightarrow> y \<noteq> x \<Longrightarrow> x \<noteq> 0 \<Longrightarrow>
   pred_in (remove1 x xs) y = (if pred_in xs y = x then pred_in xs x else pred_in xs y)"
  using succ_in_remove1[of "rev xs" y x] by (simp add: pred_in_def rev_remove1)

lemma insert_after_append:
  "insert_after c n (xs @ ys) = (if c \<in> set xs then insert_after c n xs @ ys else xs @ insert_after c n ys)"
  by (induction xs) auto

lemma insert_before_append:
  "insert_before c n (xs @ ys) = (if c \<in> set xs then insert_before c n xs @ ys else xs @ insert_before c n ys)"
  by (induction xs) auto

lemma insert_after_notin: "c \<notin> set xs \<Longrightarrow> insert_after c n xs = xs"
  by (induction xs) auto

lemma insert_before_notin: "c \<notin> set xs \<Longrightarrow> insert_before c n xs = xs"
  by (induction xs) auto

lemma rev_insert_after:
  "distinct xs \<Longrightarrow> rev (insert_after c n xs) = insert_before c n (rev xs)"
  by (induction xs) (auto simp: insert_before_append insert_before_notin)

lemma rev_insert_before:
  "distinct xs \<Longrightarrow> rev (insert_before c n xs) = insert_after c n (rev xs)"
  by (induction xs) (auto simp: insert_after_append insert_after_notin)

lemma set_insert_after: "c \<in> set xs \<Longrightarrow> set (insert_after c n xs) = insert n (set xs)"
  by (induction xs) auto

lemma set_insert_before: "c \<in> set xs \<Longrightarrow> set (insert_before c n xs) = insert n (set xs)"
  by (induction xs) auto

lemma set_insert_after_subset: "set (insert_after c n xs) \<subseteq> insert n (set xs)"
  by (induction xs) auto

lemma set_insert_before_subset: "set (insert_before c n xs) \<subseteq> insert n (set xs)"
  by (induction xs) auto

lemma distinct_insert_after:
  "distinct xs \<Longrightarrow> n \<notin> set xs \<Longrightarrow> distinct (insert_after c n xs)"
  using set_insert_after_subset[of c n] by (induction xs) (auto 4 3)

lemma distinct_insert_before:
  "distinct xs \<Longrightarrow> n \<notin> set xs \<Longrightarrow> distinct (insert_before c n xs)"
  using set_insert_before_subset[of c n] by (induction xs) (auto 4 3)

lemma length_insert_after: "c \<in> set xs \<Longrightarrow> length (insert_after c n xs) = Suc (length xs)"
  by (induction xs) auto

lemma length_insert_before: "c \<in> set xs \<Longrightarrow> length (insert_before c n xs) = Suc (length xs)"
  by (induction xs) auto

lemma succ_in_insert_after:
  "distinct xs \<Longrightarrow> c \<in> set xs \<Longrightarrow> n \<notin> set xs \<Longrightarrow>
   succ_in (insert_after c n xs) y =
     (if y = c then n else if y = n then succ_in xs c else succ_in xs y)"
proof (induction xs)
  case Nil
  then show ?case by simp
next
  case (Cons a xs)
  show ?case
  proof (cases "a = c")
    case True
    with Cons.prems show ?thesis by (auto simp: succ_in_Cons succ_in_notin)
  next
    case False
    with Cons.prems have c: "c \<in> set xs" and d: "distinct xs" and n: "n \<notin> set xs" 
      and a: "a \<notin> set (insert_after c n xs)" "a \<notin> set xs" by (auto simp: set_insert_after)
    have h: "hd0 (insert_after c n xs) = hd0 xs" using c by (cases xs) auto
    show ?thesis using False Cons.IH[OF d c n] a Cons.prems h
      by (auto simp: succ_in_Cons)
  qed
qed

lemma succ_in_insert_before:
  "distinct xs \<Longrightarrow> c \<in> set xs \<Longrightarrow> n \<notin> set xs \<Longrightarrow> c \<noteq> 0 \<Longrightarrow>
   succ_in (insert_before c n xs) y =
     (if y = n then c else if succ_in xs y = c then n else succ_in xs y)"
proof (induction xs)
  case Nil
  then show ?case by simp
next
  case (Cons a xs)
  show ?case
  proof (cases "a = c")
    case True
    with Cons.prems show ?thesis
      by (auto simp: succ_in_Cons succ_in_notin dest: succ_in_mem hd0_mem0)
  next
    case False
    with Cons.prems have c: "c \<in> set xs" and d: "distinct xs" and n: "n \<notin> set xs" 
      and a: "a \<notin> set (insert_before c n xs)" "a \<notin> set xs" by (auto simp: set_insert_before)
    have h: "hd0 (insert_before c n xs) = (if hd0 xs = c then n else hd0 xs)" using c by (cases xs) auto
    show ?thesis using False Cons.IH[OF d c n] a Cons.prems h
      by (auto simp: succ_in_Cons)
  qed
qed

lemma pred_in_insert_after:
  "distinct xs \<Longrightarrow> c \<in> set xs \<Longrightarrow> n \<notin> set xs \<Longrightarrow> c \<noteq> 0 \<Longrightarrow>
   pred_in (insert_after c n xs) y =
     (if y = n then c else if pred_in xs y = c then n else pred_in xs y)"
  using succ_in_insert_before[of "rev xs" c n y] by (simp add: pred_in_def rev_insert_after)

lemma pred_in_insert_before:
  "distinct xs \<Longrightarrow> c \<in> set xs \<Longrightarrow> n \<notin> set xs \<Longrightarrow>
   pred_in (insert_before c n xs) y =
     (if y = c then n else if y = n then pred_in xs c else pred_in xs y)"
  using succ_in_insert_after[of "rev xs" c n y] by (simp add: pred_in_def rev_insert_before)

lemma hd0_insert_after: "c \<in> set xs \<Longrightarrow> hd0 (insert_after c n xs) = hd0 xs"
  by (cases xs) auto

lemma hd0_insert_before: "c \<in> set xs \<Longrightarrow> hd0 (insert_before c n xs) = (if hd0 xs = c then n else hd0 xs)"
  by (cases xs) auto

lemma hd0_remove1: "distinct xs \<Longrightarrow> 0 \<notin> set xs \<Longrightarrow> hd0 (remove1 x xs) = (if hd0 xs = x then succ_in xs x else hd0 xs)"
  by (cases xs) (auto simp: succ_in_Cons)

lemma hd0_mem: "xs \<noteq> [] \<Longrightarrow> hd0 xs \<in> set xs"
  by (cases xs) auto

lemma hd0_eq_0: "0 \<notin> set xs \<Longrightarrow> (hd0 xs = 0) = (xs = [])"
  by (cases xs) auto

section \<open>The node operations on a linked sequence\<close>

lemma links_frame: "links h xs \<Longrightarrow> (\<forall>x\<in>set xs. h' x = h x) \<Longrightarrow> links h' xs"
  by (simp add: links_def)

lemma Detach_frame:
  assumes "x \<noteq> 0"
  shows "\<exists>h'. Detach h x = Some h' \<and> prev (h' x) = 0 \<and> next (h' x) = 0 \<and>
          (\<forall>y. y \<noteq> x \<and> (y = 0 \<or> (y \<noteq> prev (h x) \<and> y \<noteq> next (h x))) \<longrightarrow> h' y = h y) \<and>
          (\<forall>y. val (h' y) = val (h y))"
  using assms by (simp add: Detach_def Let_def set_prev_def set_next_def)

lemma Detach_eq:
  assumes "x \<noteq> 0" "prev (h x) \<noteq> x" "next (h x) \<noteq> x"
  shows "\<exists>h'. Detach h x = Some h' \<and>
          (\<forall>y. next (h' y) = (if y = x then 0 else if y = prev (h x) \<and> prev (h x) \<noteq> 0 then next (h x) else next (h y)) \<and>
               prev (h' y) = (if y = x then 0 else if y = next (h x) \<and> next (h x) \<noteq> 0 then prev (h x) else prev (h y)) \<and>
               val (h' y) = val (h y)) \<and>
          (\<forall>y. y \<noteq> x \<and> (y = 0 \<or> (y \<noteq> prev (h x) \<and> y \<noteq> next (h x))) \<longrightarrow> h' y = h y)"
  using assms by (simp add: Detach_def Let_def set_prev_def set_next_def)

lemma Detach_detached:
  assumes "x \<noteq> 0" "prev (h x) = 0" "next (h x) = 0"
  shows "Detach h x = Some h"
proof -
  have "(h x)\<lparr>prev := 0, next := 0\<rparr> = h x" using assms by (intro node.equality) simp_all
  then have "h(x := (h x)\<lparr>prev := 0, next := 0\<rparr>) = h" by simp
  then show ?thesis using assms by (simp add: Detach_def Let_def set_prev_def set_next_def)
qed

lemma AttachNext_eq:
  assumes "this \<noteq> 0" "node \<noteq> 0" "this \<noteq> node" "next (h node) \<noteq> this"
  shows "\<exists>h'. AttachNext h this node = Some h' \<and>
          (\<forall>y. next (h' y) = (if y = node then this else if y = this then next (h node) else next (h y)) \<and>
               prev (h' y) = (if y = this then node else if y = next (h node) \<and> next (h node) \<noteq> 0 then this else prev (h y)) \<and>
               val (h' y) = val (h y)) \<and>
          (\<forall>y. y \<noteq> this \<and> y \<noteq> node \<and> (y = 0 \<or> y \<noteq> next (h node)) \<longrightarrow> h' y = h y)"
  using assms by (simp add: AttachNext_def Let_def set_prev_def set_next_def)

lemma AttachPrev_eq:
  assumes "this \<noteq> 0" "node \<noteq> 0" "this \<noteq> node" "prev (h node) \<noteq> this"
  shows "\<exists>h'. AttachPrev h this node = Some h' \<and>
          (\<forall>y. prev (h' y) = (if y = node then this else if y = this then prev (h node) else prev (h y)) \<and>
               next (h' y) = (if y = this then node else if y = prev (h node) \<and> prev (h node) \<noteq> 0 then this else next (h y)) \<and>
               val (h' y) = val (h y)) \<and>
          (\<forall>y. y \<noteq> this \<and> y \<noteq> node \<and> (y = 0 \<or> y \<noteq> prev (h node)) \<longrightarrow> h' y = h y)"
  using assms by (simp add: AttachPrev_def Let_def set_prev_def set_next_def)

lemma links_pred_neq: "links h xs \<Longrightarrow> x \<in> set xs \<Longrightarrow> pred_in xs x \<noteq> x"
  using succ_in_neq_self[of "rev xs" x] by (simp add: links_def pred_in_def)

lemma links_succ_neq: "links h xs \<Longrightarrow> x \<in> set xs \<Longrightarrow> succ_in xs x \<noteq> x"
  using succ_in_neq_self[of xs x] by (simp add: links_def)

lemma Detach_links:
  assumes l: "links h xs" and x: "x \<in> set xs"
  shows "\<exists>h'. Detach h x = Some h' \<and> links h' (remove1 x xs) \<and>
          prev (h' x) = 0 \<and> next (h' x) = 0 \<and>
          (\<forall>y. y \<notin> set xs \<longrightarrow> h' y = h y) \<and> (\<forall>y. val (h' y) = val (h y))"
proof -
  from l x have x0: "x \<noteq> 0" and d: "distinct xs" and z: "0 \<notin> set xs"
    and nx: "next (h x) = succ_in xs x" and px: "prev (h x) = pred_in xs x"
    by (auto simp: links_def)
  have px': "prev (h x) \<noteq> x" and nx': "next (h x) \<noteq> x"
    using links_pred_neq[OF l x] links_succ_neq[OF l x] nx px by auto
  from Detach_eq[of x h, OF x0 px' nx'] obtain h' where
    D: "Detach h x = Some h'" and
    N: "\<And>y. next (h' y) = (if y = x then 0 else if y = prev (h x) \<and> prev (h x) \<noteq> 0 then next (h x) else next (h y))" and
    P: "\<And>y. prev (h' y) = (if y = x then 0 else if y = next (h x) \<and> next (h x) \<noteq> 0 then prev (h x) else prev (h y))" and
    V: "\<And>y. val (h' y) = val (h y)" and
    F: "\<And>y. y \<noteq> x \<and> (y = 0 \<or> (y \<noteq> prev (h x) \<and> y \<noteq> next (h x))) \<longrightarrow> h' y = h y"
    by blast
  have mem: "prev (h x) \<noteq> 0 \<Longrightarrow> prev (h x) \<in> set xs" "next (h x) \<noteq> 0 \<Longrightarrow> next (h x) \<in> set xs"
    using px nx pred_in_mem[of xs x] succ_in_mem[of xs x] by auto
  have L: "links h' (remove1 x xs)"
    unfolding links_def
  proof (intro conjI ballI)
    show "distinct (remove1 x xs)" using d by simp
    show "0 \<notin> set (remove1 x xs)" using z d by simp
  next
    fix y assume "y \<in> set (remove1 x xs)"
    then have y: "y \<in> set xs" "y \<noteq> x" using d by auto
    then have y0: "y \<noteq> 0" using z by auto
    have hy: "next (h y) = succ_in xs y" "prev (h y) = pred_in xs y" using l y by (auto simp: links_def)
    show "next (h' y) = succ_in (remove1 x xs) y"
      using y y0 x0 d hy nx px succ_pred_iff[OF d x0 y0]
      by (auto simp: N succ_in_remove1)
    show "prev (h' y) = pred_in (remove1 x xs) y"
      using y y0 x0 d hy nx px succ_pred_iff[OF d y0 x0]
      by (auto simp: P pred_in_remove1)
  qed
  have Fr: "\<forall>y. y \<notin> set xs \<longrightarrow> h' y = h y"
  proof (intro allI impI)
    fix y assume y: "y \<notin> set xs"
    show "h' y = h y"
    proof (cases "y = 0")
      case True
      then show ?thesis using F[of y] x0 by simp
    next
      case False
      have "y \<noteq> x" using x y by auto
      moreover have "y \<noteq> prev (h x)" using mem(1) y False by (cases "prev (h x) = 0") auto
      moreover have "y \<noteq> next (h x)" using mem(2) y False by (cases "next (h x) = 0") auto
      ultimately show ?thesis using F[of y] by simp
    qed
  qed
  show ?thesis using D L N P V Fr by auto
qed

section \<open>Traversal, the counter and removal\<close>

lemma walk_suffix:
  "links h (as @ ys) \<Longrightarrow> walk h (hd0 ys) = Some ys"
proof (induction ys arbitrary: as)
  case Nil
  show ?case by (simp add: walk.simps)
next
  case (Cons y ys)
  from Cons.prems have d: "distinct (as @ y # ys)" and y0: "y \<noteq> 0"
    and n: "next (h y) = succ_in (as @ y # ys) y" by (auto simp: links_def)
  have n': "next (h y) = hd0 ys" using n succ_in_decomp[OF d] by simp
  have "links h ((as @ [y]) @ ys)" using Cons.prems by simp
  from Cons.IH[OF this] have "walk h (hd0 ys) = Some ys" .
  then show ?case using y0 n' by (subst walk.simps) simp
qed

lemma links_walk: "links h xs \<Longrightarrow> walk h (hd0 xs) = Some xs"
  using walk_suffix[of h "[]" xs] by simp

lemma rwalk_suffix:
  "distinct (as @ ys) \<Longrightarrow> 0 \<notin> set ys \<Longrightarrow> (\<forall>x\<in>set ys. prev (h x) = succ_in (as @ ys) x) \<Longrightarrow>
   rwalk h (hd0 ys) = Some ys"
proof (induction ys arbitrary: as)
  case Nil
  show ?case by (simp add: rwalk.simps)
next
  case (Cons y ys)
  from Cons.prems have d: "distinct (as @ y # ys)" and y0: "y \<noteq> 0"
    and n: "prev (h y) = succ_in (as @ y # ys) y" by auto
  have n': "prev (h y) = hd0 ys" using n succ_in_decomp[OF d] by simp
  have "rwalk h (hd0 ys) = Some ys"
    using Cons.IH[of "as @ [y]"] Cons.prems by simp
  then show ?case using y0 n' by (subst rwalk.simps) simp
qed

lemma links_rwalk: "links h xs \<Longrightarrow> rwalk h (hd0 (rev xs)) = Some (rev xs)"
  using rwalk_suffix[of "[]" "rev xs" h] by (simp add: links_def pred_in_def)

lemma length_bound:
  assumes "distinct xs" "0 \<notin> set xs"
  shows "length (xs :: ptr list) < 2 ^ 64"
proof -
  have "length xs = card (set xs)" using assms by (simp add: distinct_card)
  also have "\<dots> \<le> card (UNIV - {0 :: ptr})" using assms by (intro card_mono) auto
  also have "\<dots> = 2 ^ 64 - 1" by (simp add: card_Diff_singleton card_word)
  finally show ?thesis by simp
qed

lemma unat_length: "distinct xs \<Longrightarrow> 0 \<notin> set xs \<Longrightarrow> unat (of_nat (length (xs :: ptr list)) :: 64 word) = length xs"
  using length_bound[of xs] by (simp add: unat_of_nat)

lemma dll_traverse: "dll h L xs \<Longrightarrow> traverse h L = Some xs"
  by (simp add: dll_def traverse_def links_walk)

lemma dll_rtraverse: "dll h L xs \<Longrightarrow> rtraverse h L = Some (rev xs)"
  by (simp add: dll_def rtraverse_def links_rwalk)

lemma dll_GetLength: "dll h L xs \<Longrightarrow> Enable L \<Longrightarrow> unat (GetLength L) = length xs"
  by (simp add: dll_def GetLength_def links_def unat_length)

lemma dll_IsEmpty: "dll h L xs \<Longrightarrow> IsEmpty L = (xs = [])"
  by (cases xs) (auto simp: dll_def IsEmpty_def links_def)



lemma dll_frame: "dll h L xs \<Longrightarrow> (\<forall>x\<in>set xs. h' x = h x) \<Longrightarrow> dll h' L xs"
  using links_frame[of h xs h'] by (simp add: dll_def)

lemma hd0_rev_remove1:
  "distinct xs \<Longrightarrow> 0 \<notin> set xs \<Longrightarrow>
   hd0 (rev (remove1 x xs)) = (if hd0 (rev xs) = x then pred_in xs x else hd0 (rev xs))"
  using hd0_remove1[of "rev xs" x] by (simp add: rev_remove1 pred_in_def)

lemma of_nat_pred: "0 < n \<Longrightarrow> (of_nat (n - Suc 0) :: 64 word) = of_nat n - 1"
  by (cases n) simp_all

lemma Remove_dll:
  assumes l: "dll h L xs" and x: "x \<in> set xs"
  shows "\<exists>h' L'. Remove h L x = Some (h', L') \<and> dll h' L' (remove1 x xs) \<and>
          prev (h' x) = 0 \<and> next (h' x) = 0 \<and>
          (\<forall>y. y \<notin> set xs \<longrightarrow> h' y = h y) \<and> (\<forall>y. val (h' y) = val (h y)) \<and>
          Enable L' = Enable L \<and>
          head L' = (if x = head L then next (h x) else head L) \<and>
          last_p L' = (if x = last_p L then prev (h x) else last_p L) \<and>
          length_n L' = (if Enable L then length_n L - 1 else length_n L)"
proof -
  from l have lk: "links h xs" by (simp add: dll_def)
  from lk x have x0: "x \<noteq> 0" and d: "distinct xs" and z: "0 \<notin> set xs"
    and nx: "next (h x) = succ_in xs x" and px: "prev (h x) = pred_in xs x"
    by (auto simp: links_def)
  from Detach_links[OF lk x] obtain h' where
    D: "Detach h x = Some h'" and L: "links h' (remove1 x xs)" and
    R: "prev (h' x) = 0" "next (h' x) = 0" "\<forall>y. y \<notin> set xs \<longrightarrow> h' y = h y" "\<forall>y. val (h' y) = val (h y)"
    by blast
  define L1 where "L1 = (if x = head L then L\<lparr>head := next (h x)\<rparr> else L)"
  define L2 where "L2 = (if x = last_p L1 then L1\<lparr>last_p := prev (h x)\<rparr> else L1)"
  define L3 where "L3 = (if Enable L2 then DecLength L2 else L2)"
  have rem: "Remove h L x = Some (h', L3)"
    using x0 D by (simp add: Remove_def Increment_def Decrement_def L1_def L2_def L3_def)
  have len: "0 < length xs" using x by (cases xs) auto
  have len1: "length (remove1 x xs) = length xs - Suc 0" using x by (simp add: length_remove1)
  have "dll h' L3 (remove1 x xs)"
    using l L d z nx px len
    by (auto simp: dll_def L3_def L2_def L1_def DecLength_def hd0_remove1 hd0_rev_remove1 len1 of_nat_pred)
  moreover have "Enable L3 = Enable L" "head L3 = (if x = head L then next (h x) else head L)"
    "last_p L3 = (if x = last_p L then prev (h x) else last_p L)"
    "length_n L3 = (if Enable L then length_n L - 1 else length_n L)"
    by (auto simp: L3_def L2_def L1_def DecLength_def)
  ultimately show ?thesis using rem R by auto
qed

lemma hd0_rev_insert_after:
  "distinct xs \<Longrightarrow> c \<in> set xs \<Longrightarrow>
   hd0 (rev (insert_after c n xs)) = (if hd0 (rev xs) = c then n else hd0 (rev xs))"
  by (simp add: rev_insert_after hd0_insert_before)

lemma hd0_rev_insert_before:
  "distinct xs \<Longrightarrow> c \<in> set xs \<Longrightarrow> hd0 (rev (insert_before c n xs)) = hd0 (rev xs)"
  by (simp add: rev_insert_before hd0_insert_after)

lemma links_single: "x \<noteq> 0 \<Longrightarrow> prev (h x) = 0 \<Longrightarrow> next (h x) = 0 \<Longrightarrow> links h [x]"
  by (simp add: links_def pred_in_def)

lemma AttachNext_links:
  assumes l: "links h xs" and c: "c \<in> set xs" and n: "n \<notin> set xs" "n \<noteq> 0"
  shows "\<exists>h'. AttachNext h n c = Some h' \<and> links h' (insert_after c n xs) \<and>
          (\<forall>y. y \<notin> set xs \<and> y \<noteq> n \<longrightarrow> h' y = h y) \<and> (\<forall>y. val (h' y) = val (h y))"
proof -
  from l c have c0: "c \<noteq> 0" and d: "distinct xs" and z: "0 \<notin> set xs"
    and nc: "next (h c) = succ_in xs c" by (auto simp: links_def)
  have nc_mem: "next (h c) \<noteq> 0 \<Longrightarrow> next (h c) \<in> set xs" using nc succ_in_mem[of xs c] by simp
  have a3: "n \<noteq> c" using c n by auto
  have a4: "next (h c) \<noteq> n" using nc_mem n by (cases "next (h c) = 0") auto
  from AttachNext_eq[of n c h, OF n(2) c0 a3 a4] obtain h' where
    A: "AttachNext h n c = Some h'" and
    N: "\<And>y. next (h' y) = (if y = c then n else if y = n then next (h c) else next (h y))" and
    P: "\<And>y. prev (h' y) = (if y = n then c else if y = next (h c) \<and> next (h c) \<noteq> 0 then n else prev (h y))" and
    V: "\<And>y. val (h' y) = val (h y)" and
    F: "\<And>y. y \<noteq> n \<and> y \<noteq> c \<and> (y = 0 \<or> y \<noteq> next (h c)) \<longrightarrow> h' y = h y"
    by blast
  have L: "links h' (insert_after c n xs)"
    unfolding links_def
  proof (intro conjI ballI)
    show "distinct (insert_after c n xs)" using d n by (simp add: distinct_insert_after)
    show "0 \<notin> set (insert_after c n xs)" using z n c by (simp add: set_insert_after)
  next
    fix y assume "y \<in> set (insert_after c n xs)"
    then have y: "y = n \<or> y \<in> set xs" using c by (simp add: set_insert_after)
    then have y0: "y \<noteq> 0" using z n by auto
    have hy: "y \<in> set xs \<Longrightarrow> next (h y) = succ_in xs y \<and> prev (h y) = pred_in xs y"
      using l by (auto simp: links_def)
    show "next (h' y) = succ_in (insert_after c n xs) y"
      using y hy nc n by (auto simp: N succ_in_insert_after[OF d c n(1)])
    show "prev (h' y) = pred_in (insert_after c n xs) y"
      using y hy nc n y0 succ_pred_iff[OF d y0 c0, of]
      by (auto simp: P pred_in_insert_after[OF d c n(1) c0] pred_in_notin)
  qed
  have Fr: "\<forall>y. y \<notin> set xs \<and> y \<noteq> n \<longrightarrow> h' y = h y"
  proof (intro allI impI)
    fix y assume y: "y \<notin> set xs \<and> y \<noteq> n"
    have "y \<noteq> c" using y c by auto
    moreover have "y = 0 \<or> y \<noteq> next (h c)" using nc_mem y by (cases "next (h c) = 0") auto
    ultimately show "h' y = h y" using F[of y] y by simp
  qed
  show ?thesis using A L Fr V by auto
qed

lemma AttachPrev_links:
  assumes l: "links h xs" and c: "c \<in> set xs" and n: "n \<notin> set xs" "n \<noteq> 0"
  shows "\<exists>h'. AttachPrev h n c = Some h' \<and> links h' (insert_before c n xs) \<and>
          (\<forall>y. y \<notin> set xs \<and> y \<noteq> n \<longrightarrow> h' y = h y) \<and> (\<forall>y. val (h' y) = val (h y))"
proof -
  from l c have c0: "c \<noteq> 0" and d: "distinct xs" and z: "0 \<notin> set xs"
    and pc: "prev (h c) = pred_in xs c" by (auto simp: links_def)
  have pc_mem: "prev (h c) \<noteq> 0 \<Longrightarrow> prev (h c) \<in> set xs" using pc pred_in_mem[of xs c] by simp
  have a3: "n \<noteq> c" using c n by auto
  have a4: "prev (h c) \<noteq> n" using pc_mem n by (cases "prev (h c) = 0") auto
  from AttachPrev_eq[of n c h, OF n(2) c0 a3 a4] obtain h' where
    A: "AttachPrev h n c = Some h'" and
    P: "\<And>y. prev (h' y) = (if y = c then n else if y = n then prev (h c) else prev (h y))" and
    N: "\<And>y. next (h' y) = (if y = n then c else if y = prev (h c) \<and> prev (h c) \<noteq> 0 then n else next (h y))" and
    V: "\<And>y. val (h' y) = val (h y)" and
    F: "\<And>y. y \<noteq> n \<and> y \<noteq> c \<and> (y = 0 \<or> y \<noteq> prev (h c)) \<longrightarrow> h' y = h y"
    by blast
  have L: "links h' (insert_before c n xs)"
    unfolding links_def
  proof (intro conjI ballI)
    show "distinct (insert_before c n xs)" using d n by (simp add: distinct_insert_before)
    show "0 \<notin> set (insert_before c n xs)" using z n c by (simp add: set_insert_before)
  next
    fix y assume "y \<in> set (insert_before c n xs)"
    then have y: "y = n \<or> y \<in> set xs" using c by (simp add: set_insert_before)
    then have y0: "y \<noteq> 0" using z n by auto
    have hy: "y \<in> set xs \<Longrightarrow> next (h y) = succ_in xs y \<and> prev (h y) = pred_in xs y"
      using l by (auto simp: links_def)
    show "prev (h' y) = pred_in (insert_before c n xs) y"
      using y hy pc n by (auto simp: P pred_in_insert_before[OF d c n(1)])
    show "next (h' y) = succ_in (insert_before c n xs) y"
      using y hy pc n y0 succ_pred_iff[OF d c0 y0]
      by (auto simp: N succ_in_insert_before[OF d c n(1) c0] succ_in_notin)
  qed
  have Fr: "\<forall>y. y \<notin> set xs \<and> y \<noteq> n \<longrightarrow> h' y = h y"
  proof (intro allI impI)
    fix y assume y: "y \<notin> set xs \<and> y \<noteq> n"
    have "y \<noteq> c" using y c by auto
    moreover have "y = 0 \<or> y \<noteq> prev (h c)" using pc_mem y by (cases "prev (h c) = 0") auto
    ultimately show "h' y = h y" using F[of y] y by simp
  qed
  show ?thesis using A L Fr V by auto
qed

section \<open>Insertion\<close>

lemma Detach_outside:
  assumes l: "links h xs" and o: "outside h n xs"
  shows "\<exists>h'. Detach h n = Some h' \<and> links h' xs \<and> prev (h' n) = 0 \<and> next (h' n) = 0 \<and>
          (\<forall>y. y \<noteq> n \<and> (y = 0 \<or> (y \<noteq> prev (h n) \<and> y \<noteq> next (h n))) \<longrightarrow> h' y = h y) \<and>
          (\<forall>y. val (h' y) = val (h y))"
proof -
  from o have n0: "n \<noteq> 0" by (simp add: outside_def)
  from Detach_frame[OF n0, of h] obtain h' where
    D: "Detach h n = Some h'" and R: "prev (h' n) = 0" "next (h' n) = 0" and
    F: "\<forall>y. y \<noteq> n \<and> (y = 0 \<or> (y \<noteq> prev (h n) \<and> y \<noteq> next (h n))) \<longrightarrow> h' y = h y" and
    V: "\<forall>y. val (h' y) = val (h y)" by blast
  have "\<forall>x\<in>set xs. h' x = h x" using F o by (auto simp: outside_def)
  from links_frame[OF l this] show ?thesis using D R F V by auto
qed

lemma of_nat_Suc_word: "(of_nat (Suc n) :: 64 word) = of_nat n + 1"
  by simp

lemma InsertNext_dll:
  assumes l: "dll h L xs" and o: "outside h n xs" and c: "xs \<noteq> [] \<longrightarrow> c \<in> set xs"
  shows "\<exists>h' L'. InsertNext h L c n = Some (h', L', n) \<and>
          dll h' L' (if xs = [] then [n] else insert_after c n xs) \<and>
          (\<forall>y. y \<notin> set xs \<and> y \<noteq> n \<and> (y = 0 \<or> (y \<noteq> prev (h n) \<and> y \<noteq> next (h n))) \<longrightarrow> h' y = h y) \<and>
          (\<forall>y. val (h' y) = val (h y)) \<and> Enable L' = Enable L \<and>
          length_n L' = (if Enable L then length_n L + 1 else length_n L)"
proof -
  from l have lk: "links h xs" by (simp add: dll_def)
  from o have n0: "n \<noteq> 0" and nx: "n \<notin> set xs" by (auto simp: outside_def)
  from Detach_outside[OF lk o] obtain h1 where
    D: "Detach h n = Some h1" and l1: "links h1 xs" and R: "prev (h1 n) = 0" "next (h1 n) = 0" and
    F: "\<forall>y. y \<noteq> n \<and> (y = 0 \<or> (y \<noteq> prev (h n) \<and> y \<noteq> next (h n))) \<longrightarrow> h1 y = h y" and
    V: "\<forall>y. val (h1 y) = val (h y)" by blast
  show ?thesis
  proof (cases "xs = []")
    case True
    then have e: "IsEmpty L" using dll_IsEmpty[OF l] by simp
    define L' where "L' = (if Enable L then IncLength (L\<lparr>head := n, last_p := n\<rparr>) else L\<lparr>head := n, last_p := n\<rparr>)"
    have "InsertNext h L c n = Some (h1, L', n)"
      using D e by (simp add: InsertNext_def L'_def)
    moreover have "dll h1 L' [n]"
      using links_single[of n h1, OF n0 R] l True by (auto simp: dll_def L'_def IncLength_def)
    moreover have "Enable L' = Enable L" "length_n L' = (if Enable L then length_n L + 1 else length_n L)"
      by (auto simp: L'_def IncLength_def)
    ultimately show ?thesis using True F V by auto
  next
    case False
    then have e: "\<not> IsEmpty L" and cm: "c \<in> set xs" using dll_IsEmpty[OF l] c by auto
    from l have d: "distinct xs" by (simp add: dll_def links_def)
    from AttachNext_links[OF l1 cm nx n0] obtain h2 where
      A: "AttachNext h1 n c = Some h2" and l2: "links h2 (insert_after c n xs)" and
      F2: "\<forall>y. y \<notin> set xs \<and> y \<noteq> n \<longrightarrow> h2 y = h1 y" and V2: "\<forall>y. val (h2 y) = val (h1 y)"
      by blast
    define L2 where "L2 = (if c = last_p L then L\<lparr>last_p := n\<rparr> else L)"
    define L' where "L' = (if Enable L2 then IncLength L2 else L2)"
    have "InsertNext h L c n = Some (h2, L', n)"
      using D e A by (simp add: InsertNext_def L'_def L2_def)
    moreover have "dll h2 L' (insert_after c n xs)"
      using l2 l cm d
      by (auto simp: dll_def L'_def L2_def IncLength_def hd0_insert_after hd0_rev_insert_after
          length_insert_after)
    moreover have "Enable L' = Enable L" "length_n L' = (if Enable L then length_n L + 1 else length_n L)"
      by (auto simp: L'_def L2_def IncLength_def)
    moreover have "\<forall>y. y \<notin> set xs \<and> y \<noteq> n \<and> (y = 0 \<or> (y \<noteq> prev (h n) \<and> y \<noteq> next (h n))) \<longrightarrow> h2 y = h y"
      using F F2 by auto
    moreover have "\<forall>y. val (h2 y) = val (h y)" using V V2 by simp
    ultimately show ?thesis using False by auto
  qed
qed

lemma InsertPrev_dll:
  assumes l: "dll h L xs" and o: "outside h n xs" and c: "xs \<noteq> [] \<longrightarrow> c \<in> set xs"
  shows "\<exists>h' L'. InsertPrev h L c n = Some (h', L', n) \<and>
          dll h' L' (if xs = [] then [n] else insert_before c n xs) \<and>
          (\<forall>y. y \<notin> set xs \<and> y \<noteq> n \<and> (y = 0 \<or> (y \<noteq> prev (h n) \<and> y \<noteq> next (h n))) \<longrightarrow> h' y = h y) \<and>
          (\<forall>y. val (h' y) = val (h y)) \<and> Enable L' = Enable L \<and>
          length_n L' = (if Enable L then length_n L + 1 else length_n L)"
proof -
  from l have lk: "links h xs" by (simp add: dll_def)
  from o have n0: "n \<noteq> 0" and nx: "n \<notin> set xs" by (auto simp: outside_def)
  from Detach_outside[OF lk o] obtain h1 where
    D: "Detach h n = Some h1" and l1: "links h1 xs" and R: "prev (h1 n) = 0" "next (h1 n) = 0" and
    F: "\<forall>y. y \<noteq> n \<and> (y = 0 \<or> (y \<noteq> prev (h n) \<and> y \<noteq> next (h n))) \<longrightarrow> h1 y = h y" and
    V: "\<forall>y. val (h1 y) = val (h y)" by blast
  show ?thesis
  proof (cases "xs = []")
    case True
    then have e: "IsEmpty L" using dll_IsEmpty[OF l] by simp
    define L' where "L' = (if Enable L then IncLength (L\<lparr>head := n, last_p := n\<rparr>) else L\<lparr>head := n, last_p := n\<rparr>)"
    have "InsertPrev h L c n = Some (h1, L', n)"
      using D e by (simp add: InsertPrev_def L'_def)
    moreover have "dll h1 L' [n]"
      using links_single[of n h1, OF n0 R] l True by (auto simp: dll_def L'_def IncLength_def)
    moreover have "Enable L' = Enable L" "length_n L' = (if Enable L then length_n L + 1 else length_n L)"
      by (auto simp: L'_def IncLength_def)
    ultimately show ?thesis using True F V by auto
  next
    case False
    then have e: "\<not> IsEmpty L" and cm: "c \<in> set xs" using dll_IsEmpty[OF l] c by auto
    from l have d: "distinct xs" by (simp add: dll_def links_def)
    from AttachPrev_links[OF l1 cm nx n0] obtain h2 where
      A: "AttachPrev h1 n c = Some h2" and l2: "links h2 (insert_before c n xs)" and
      F2: "\<forall>y. y \<notin> set xs \<and> y \<noteq> n \<longrightarrow> h2 y = h1 y" and V2: "\<forall>y. val (h2 y) = val (h1 y)"
      by blast
    define L2 where "L2 = (if c = head L then L\<lparr>head := n\<rparr> else L)"
    define L' where "L' = (if Enable L2 then IncLength L2 else L2)"
    have "InsertPrev h L c n = Some (h2, L', n)"
      using D e A by (simp add: InsertPrev_def L'_def L2_def)
    moreover have "dll h2 L' (insert_before c n xs)"
      using l2 l cm d
      by (auto simp: dll_def L'_def L2_def IncLength_def hd0_insert_before hd0_rev_insert_before
          length_insert_before)
    moreover have "Enable L' = Enable L" "length_n L' = (if Enable L then length_n L + 1 else length_n L)"
      by (auto simp: L'_def L2_def IncLength_def)
    moreover have "\<forall>y. y \<notin> set xs \<and> y \<noteq> n \<and> (y = 0 \<or> (y \<noteq> prev (h n) \<and> y \<noteq> next (h n))) \<longrightarrow> h2 y = h y"
      using F F2 by auto
    moreover have "\<forall>y. val (h2 y) = val (h y)" using V V2 by simp
    ultimately show ?thesis using False by auto
  qed
qed

lemma hd0_snoc: "hd0 (ys @ [a]) = (if ys = [] then a else hd0 ys)"
  by (cases ys) auto

lemma hd0_rev_mem: "xs \<noteq> [] \<Longrightarrow> hd0 (rev xs) \<in> set xs"
  using hd0_mem[of "rev xs"] by simp

lemma insert_after_last:
  "distinct xs \<Longrightarrow> xs \<noteq> [] \<Longrightarrow> insert_after (hd0 (rev xs)) n xs = xs @ [n]"
proof (induction xs)
  case Nil
  then show ?case by simp
next
  case (Cons a xs)
  show ?case
  proof (cases "xs = []")
    case True
    then show ?thesis by simp
  next
    case False
    then have "hd0 (rev xs) \<in> set xs" by (rule hd0_rev_mem)
    then have "a \<noteq> hd0 (rev xs)" using Cons.prems by auto
    then show ?thesis using Cons False by (simp add: hd0_snoc)
  qed
qed

lemma insert_before_first: "xs \<noteq> [] \<Longrightarrow> insert_before (hd0 xs) n xs = n # xs"
  by (cases xs) auto

lemma InsertLast_dll:
  assumes l: "dll h L xs" and o: "outside h n xs"
  shows "\<exists>h' L'. InsertLast h L n = Some (h', L', n) \<and> dll h' L' (xs @ [n]) \<and>
          (\<forall>y. y \<notin> set xs \<and> y \<noteq> n \<and> (y = 0 \<or> (y \<noteq> prev (h n) \<and> y \<noteq> next (h n))) \<longrightarrow> h' y = h y) \<and>
          (\<forall>y. val (h' y) = val (h y)) \<and> Enable L' = Enable L \<and>
          length_n L' = (if Enable L then length_n L + 1 else length_n L)"
proof -
  have c: "xs \<noteq> [] \<longrightarrow> last_p L \<in> set xs" using l hd0_rev_mem[of xs] by (simp add: dll_def)
  have d: "distinct xs" using l by (simp add: dll_def links_def)
  have e: "(if xs = [] then [n] else insert_after (last_p L) n xs) = xs @ [n]"
    using insert_after_last[OF d, of n] l by (simp add: dll_def)
  show ?thesis using InsertNext_dll[OF l o c] unfolding e InsertLast_def .
qed

lemma InsertHead_dll:
  assumes l: "dll h L xs" and o: "outside h n xs"
  shows "\<exists>h' L'. InsertHead h L n = Some (h', L', n) \<and> dll h' L' (n # xs) \<and>
          (\<forall>y. y \<notin> set xs \<and> y \<noteq> n \<and> (y = 0 \<or> (y \<noteq> prev (h n) \<and> y \<noteq> next (h n))) \<longrightarrow> h' y = h y) \<and>
          (\<forall>y. val (h' y) = val (h y)) \<and> Enable L' = Enable L \<and>
          length_n L' = (if Enable L then length_n L + 1 else length_n L)"
proof -
  have c: "xs \<noteq> [] \<longrightarrow> head L \<in> set xs" using l hd0_mem[of xs] by (simp add: dll_def)
  have e: "(if xs = [] then [n] else insert_before (head L) n xs) = n # xs"
    using insert_before_first[of xs n] l by (simp add: dll_def)
  show ?thesis using InsertPrev_dll[OF l o c] unfolding e InsertHead_def .
qed

text \<open>What \<open>other.Remove(newNode)\<close> leaves for the insertion that follows it.\<close>

lemma Remove_then:
  assumes l: "dll h L xs" and m: "dll h other ys" and dj: "set xs \<inter> set ys = {}" and n: "n \<in> set ys"
  shows "\<exists>h1 other1. Remove h other n = Some (h1, other1) \<and> dll h1 other1 (remove1 n ys) \<and>
          dll h1 L xs \<and> outside h1 n xs \<and> prev (h1 n) = 0 \<and> next (h1 n) = 0 \<and>
          (\<forall>y. y \<notin> set ys \<longrightarrow> h1 y = h y) \<and> (\<forall>y. val (h1 y) = val (h y)) \<and>
          Enable other1 = Enable other \<and>
          head other1 = (if n = head other then next (h n) else head other) \<and>
          length_n other1 = (if Enable other then length_n other - 1 else length_n other)"
proof -
  from Remove_dll[OF m n] obtain h1 other1 where
    R: "Remove h other n = Some (h1, other1)" "dll h1 other1 (remove1 n ys)"
       "prev (h1 n) = 0" "next (h1 n) = 0" "\<forall>y. y \<notin> set ys \<longrightarrow> h1 y = h y"
       "\<forall>y. val (h1 y) = val (h y)" "Enable other1 = Enable other"
       "head other1 = (if n = head other then next (h n) else head other)"
       "length_n other1 = (if Enable other then length_n other - 1 else length_n other)"
    by blast
  have "\<forall>x\<in>set xs. h1 x = h x" using R(5) dj by auto
  from dll_frame[OF l this] have l1: "dll h1 L xs" .
  have z: "0 \<notin> set xs" "0 \<notin> set ys" using l m by (auto simp: dll_def links_def)
  have "outside h1 n xs" using R(3,4) n dj z by (auto simp: outside_def)
  then show ?thesis using R l1 by auto
qed

section \<open>Moving an element between two lists\<close>

lemma insert_after_decomp:
  "c \<in> set xs \<Longrightarrow> \<exists>as bs. xs = as @ c # bs \<and> insert_after c n xs = as @ c # n # bs"
proof (induction xs)
  case Nil
  then show ?case by simp
next
  case (Cons a xs)
  show ?case
  proof (cases "a = c")
    case True
    then have "a # xs = [] @ c # xs \<and> insert_after c n (a # xs) = [] @ c # n # xs" by simp
    then show ?thesis by blast
  next
    case False
    with Cons obtain as bs where "xs = as @ c # bs" "insert_after c n xs = as @ c # n # bs" by auto
    then have "a # xs = (a # as) @ c # bs \<and> insert_after c n (a # xs) = (a # as) @ c # n # bs"
      using False by simp
    then show ?thesis by blast
  qed
qed

lemma insert_before_decomp:
  "c \<in> set xs \<Longrightarrow> \<exists>as bs. xs = as @ c # bs \<and> insert_before c n xs = as @ n # c # bs"
proof (induction xs)
  case Nil
  then show ?case by simp
next
  case (Cons a xs)
  show ?case
  proof (cases "a = c")
    case True
    then have "a # xs = [] @ c # xs \<and> insert_before c n (a # xs) = [] @ n # c # xs" by simp
    then show ?thesis by blast
  next
    case False
    with Cons obtain as bs where "xs = as @ c # bs" "insert_before c n xs = as @ n # c # bs" by auto
    then have "a # xs = (a # as) @ c # bs \<and> insert_before c n (a # xs) = (a # as) @ n # c # bs"
      using False by simp
    then show ?thesis by blast
  qed
qed

text \<open>The four overloads that take the source list, on two disjoint lists.\<close>

lemma from_frame:
  assumes m: "dll h1 other1 zs" and zs: "set zs \<subseteq> set ys" "n \<notin> set zs" and dj: "set xs \<inter> set ys = {}"
    and F: "\<forall>y. y \<notin> set xs \<and> y \<noteq> n \<and> (y = 0 \<or> (y \<noteq> prev (h1 n) \<and> y \<noteq> next (h1 n))) \<longrightarrow> h2 y = h1 y"
    and R: "prev (h1 n) = 0" "next (h1 n) = 0"
  shows "dll h2 other1 zs"
proof -
  have "\<forall>z\<in>set zs. h2 z = h1 z"
  proof
    fix z assume z: "z \<in> set zs"
    then have "z \<notin> set xs" "z \<noteq> n" using zs dj by auto
    then show "h2 z = h1 z" using F R by (cases "z = 0") auto
  qed
  from dll_frame[OF m this] show ?thesis .
qed

lemma InsertNext_from_dll:
  assumes l: "dll h L xs" and m: "dll h other ys" and dj: "set xs \<inter> set ys = {}"
    and n: "n \<in> set ys" and c: "xs \<noteq> [] \<longrightarrow> c \<in> set xs"
  shows "\<exists>h' L' other'. InsertNext_from h L c n other = Some (h', L', other', n) \<and>
          dll h' L' (if xs = [] then [n] else insert_after c n xs) \<and>
          dll h' other' (remove1 n ys) \<and>
          (\<forall>y. y \<notin> set xs \<and> y \<notin> set ys \<longrightarrow> h' y = h y) \<and> (\<forall>y. val (h' y) = val (h y)) \<and>
          Enable L' = Enable L \<and> Enable other' = Enable other \<and>
          length_n L' = (if Enable L then length_n L + 1 else length_n L) \<and>
          length_n other' = (if Enable other then length_n other - 1 else length_n other) \<and>
          head other' = (if n = head other then next (h n) else head other)"
proof -
  from Remove_then[OF l m dj n] obtain h1 other1 where
    R: "Remove h other n = Some (h1, other1)" "dll h1 other1 (remove1 n ys)" "dll h1 L xs"
       "outside h1 n xs" "prev (h1 n) = 0" "next (h1 n) = 0" "\<forall>y. y \<notin> set ys \<longrightarrow> h1 y = h y"
       "\<forall>y. val (h1 y) = val (h y)" "Enable other1 = Enable other"
       "head other1 = (if n = head other then next (h n) else head other)"
       "length_n other1 = (if Enable other then length_n other - 1 else length_n other)"
    by blast
  from InsertNext_dll[OF R(3) R(4) c] obtain h2 L2 where
    I: "InsertNext h1 L c n = Some (h2, L2, n)"
       "dll h2 L2 (if xs = [] then [n] else insert_after c n xs)"
       "\<forall>y. y \<notin> set xs \<and> y \<noteq> n \<and> (y = 0 \<or> (y \<noteq> prev (h1 n) \<and> y \<noteq> next (h1 n))) \<longrightarrow> h2 y = h1 y"
       "\<forall>y. val (h2 y) = val (h1 y)" "Enable L2 = Enable L"
       "length_n L2 = (if Enable L then length_n L + 1 else length_n L)"
    by blast
  have d: "distinct ys" using m by (simp add: dll_def links_def)
  have o: "dll h2 other1 (remove1 n ys)"
    using from_frame[OF R(2) _ _ dj I(3) R(5,6)] d by (auto simp: set_remove1_eq)
  have e: "InsertNext_from h L c n other = Some (h2, L2, other1, n)"
    using R(1) I(1) by (simp add: InsertNext_from_def)
  have f: "\<forall>y. y \<notin> set xs \<and> y \<notin> set ys \<longrightarrow> h2 y = h y"
  proof (intro allI impI)
    fix y assume y: "y \<notin> set xs \<and> y \<notin> set ys"
    then have "y \<noteq> n" using n by auto
    then have "h2 y = h1 y" using I(3) R(5,6) y by (cases "y = 0") auto
    then show "h2 y = h y" using R(7) y by simp
  qed
  show ?thesis using e I(2,4,5,6) o f R(8,9,10,11) by auto
qed

lemma InsertPrev_from_dll:
  assumes l: "dll h L xs" and m: "dll h other ys" and dj: "set xs \<inter> set ys = {}"
    and n: "n \<in> set ys" and c: "xs \<noteq> [] \<longrightarrow> c \<in> set xs"
  shows "\<exists>h' L' other'. InsertPrev_from h L c n other = Some (h', L', other', n) \<and>
          dll h' L' (if xs = [] then [n] else insert_before c n xs) \<and>
          dll h' other' (remove1 n ys) \<and>
          (\<forall>y. y \<notin> set xs \<and> y \<notin> set ys \<longrightarrow> h' y = h y) \<and> (\<forall>y. val (h' y) = val (h y)) \<and>
          Enable L' = Enable L \<and> Enable other' = Enable other \<and>
          length_n L' = (if Enable L then length_n L + 1 else length_n L) \<and>
          length_n other' = (if Enable other then length_n other - 1 else length_n other) \<and>
          head other' = (if n = head other then next (h n) else head other)"
proof -
  from Remove_then[OF l m dj n] obtain h1 other1 where
    R: "Remove h other n = Some (h1, other1)" "dll h1 other1 (remove1 n ys)" "dll h1 L xs"
       "outside h1 n xs" "prev (h1 n) = 0" "next (h1 n) = 0" "\<forall>y. y \<notin> set ys \<longrightarrow> h1 y = h y"
       "\<forall>y. val (h1 y) = val (h y)" "Enable other1 = Enable other"
       "head other1 = (if n = head other then next (h n) else head other)"
       "length_n other1 = (if Enable other then length_n other - 1 else length_n other)"
    by blast
  from InsertPrev_dll[OF R(3) R(4) c] obtain h2 L2 where
    I: "InsertPrev h1 L c n = Some (h2, L2, n)"
       "dll h2 L2 (if xs = [] then [n] else insert_before c n xs)"
       "\<forall>y. y \<notin> set xs \<and> y \<noteq> n \<and> (y = 0 \<or> (y \<noteq> prev (h1 n) \<and> y \<noteq> next (h1 n))) \<longrightarrow> h2 y = h1 y"
       "\<forall>y. val (h2 y) = val (h1 y)" "Enable L2 = Enable L"
       "length_n L2 = (if Enable L then length_n L + 1 else length_n L)"
    by blast
  have d: "distinct ys" using m by (simp add: dll_def links_def)
  have o: "dll h2 other1 (remove1 n ys)"
    using from_frame[OF R(2) _ _ dj I(3) R(5,6)] d by (auto simp: set_remove1_eq)
  have e: "InsertPrev_from h L c n other = Some (h2, L2, other1, n)"
    using R(1) I(1) by (simp add: InsertPrev_from_def)
  have f: "\<forall>y. y \<notin> set xs \<and> y \<notin> set ys \<longrightarrow> h2 y = h y"
  proof (intro allI impI)
    fix y assume y: "y \<notin> set xs \<and> y \<notin> set ys"
    then have "y \<noteq> n" using n by auto
    then have "h2 y = h1 y" using I(3) R(5,6) y by (cases "y = 0") auto
    then show "h2 y = h y" using R(7) y by simp
  qed
  show ?thesis using e I(2,4,5,6) o f R(8,9,10,11) by auto
qed

lemma InsertLast_from_dll:
  assumes l: "dll h L xs" and m: "dll h other ys" and dj: "set xs \<inter> set ys = {}"
    and n: "n \<in> set ys"
  shows "\<exists>h' L' other'. InsertLast_from h L n other = Some (h', L', other', n) \<and>
          dll h' L' (xs @ [n]) \<and> dll h' other' (remove1 n ys) \<and>
          (\<forall>y. y \<notin> set xs \<and> y \<notin> set ys \<longrightarrow> h' y = h y) \<and> (\<forall>y. val (h' y) = val (h y)) \<and>
          Enable L' = Enable L \<and> Enable other' = Enable other \<and>
          length_n L' = (if Enable L then length_n L + 1 else length_n L) \<and>
          length_n other' = (if Enable other then length_n other - 1 else length_n other) \<and>
          head other' = (if n = head other then next (h n) else head other)"
proof -
  have c: "xs \<noteq> [] \<longrightarrow> last_p L \<in> set xs" using l hd0_rev_mem[of xs] by (simp add: dll_def)
  have d: "distinct xs" using l by (simp add: dll_def links_def)
  have e: "(if xs = [] then [n] else insert_after (last_p L) n xs) = xs @ [n]"
    using insert_after_last[OF d, of n] l by (simp add: dll_def)
  have "InsertLast_from h L n other = InsertNext_from h L (last_p L) n other"
    by (simp add: InsertLast_from_def InsertNext_from_def InsertLast_def Remove_def
        split: bind_splits)
  then show ?thesis using InsertNext_from_dll[OF l m dj n c] unfolding e by simp
qed

lemma InsertHead_from_dll:
  assumes l: "dll h L xs" and m: "dll h other ys" and dj: "set xs \<inter> set ys = {}"
    and n: "n \<in> set ys"
  shows "\<exists>h' L' other'. InsertHead_from h L n other = Some (h', L', other', n) \<and>
          dll h' L' (n # xs) \<and> dll h' other' (remove1 n ys) \<and>
          (\<forall>y. y \<notin> set xs \<and> y \<notin> set ys \<longrightarrow> h' y = h y) \<and> (\<forall>y. val (h' y) = val (h y)) \<and>
          Enable L' = Enable L \<and> Enable other' = Enable other \<and>
          length_n L' = (if Enable L then length_n L + 1 else length_n L) \<and>
          length_n other' = (if Enable other then length_n other - 1 else length_n other) \<and>
          head other' = (if n = head other then next (h n) else head other)"
proof -
  have c: "xs \<noteq> [] \<longrightarrow> head L \<in> set xs" using l hd0_mem[of xs] by (simp add: dll_def)
  have e: "(if xs = [] then [n] else insert_before (head L) n xs) = n # xs"
    using insert_before_first[of xs n] l by (simp add: dll_def)
  have "InsertHead_from h L n other = InsertPrev_from h L (head L) n other"
    by (simp add: InsertHead_from_def InsertPrev_from_def InsertHead_def)
  then show ?thesis using InsertPrev_from_dll[OF l m dj n c] unfolding e by simp
qed

section \<open>The loops\<close>

lemma dll_empty_list: "dll h (empty_list en) []"
  by (simp add: dll_def empty_list_def links_def)

lemma dll_Nil: "dll h L [] \<Longrightarrow> head L = 0 \<and> last_p L = 0 \<and> IsEmpty L \<and> (Enable L \<longrightarrow> length_n L = 0)"
  by (simp add: dll_def IsEmpty_def)

lemma drain_loop_dll:
  "dll h L ts \<Longrightarrow> dll h rhs xs \<Longrightarrow> set ts \<inter> set xs = {} \<Longrightarrow>
   \<exists>h' L' rhs'. drain_loop h L rhs (head rhs) = Some (h', L', rhs') \<and>
      dll h' L' (ts @ xs) \<and> dll h' rhs' [] \<and>
      (\<forall>y. y \<notin> set ts \<and> y \<notin> set xs \<longrightarrow> h' y = h y) \<and> (\<forall>y. val (h' y) = val (h y)) \<and>
      Enable L' = Enable L \<and> Enable rhs' = Enable rhs"
proof (induction xs arbitrary: h L rhs ts)
  case Nil
  then have "head rhs = 0" by (simp add: dll_def)
  then show ?case using Nil by (subst drain_loop.simps) simp
next
  case (Cons x xs)
  from Cons.prems(2) have hd: "head rhs = x" and x0: "x \<noteq> 0" and d: "distinct (x # xs)"
    and nx: "next (h x) = succ_in (x # xs) x"
    by (auto simp: dll_def links_def)
  have nx': "next (h x) = hd0 xs" using nx d by (simp add: succ_in_Cons)
  have xin: "x \<in> set (x # xs)" by simp
  from InsertLast_from_dll[OF Cons.prems(1) Cons.prems(2) Cons.prems(3) xin]
  obtain h1 L1 rhs1 where
    I: "InsertLast_from h L x rhs = Some (h1, L1, rhs1, x)" "dll h1 L1 (ts @ [x])"
       "dll h1 rhs1 (remove1 x (x # xs))"
       "\<forall>y. y \<notin> set ts \<and> y \<notin> set (x # xs) \<longrightarrow> h1 y = h y" "\<forall>y. val (h1 y) = val (h y)"
       "Enable L1 = Enable L" "Enable rhs1 = Enable rhs"
       "head rhs1 = (if x = head rhs then next (h x) else head rhs)"
    by blast
  have r1: "dll h1 rhs1 xs" using I(3) by simp
  have h1: "head rhs1 = next (h x)" using I(8) hd by simp
  have dj: "set (ts @ [x]) \<inter> set xs = {}" using Cons.prems(3) d by auto
  from Cons.IH[OF I(2) r1 dj] obtain h' L' rhs' where
    R: "drain_loop h1 L1 rhs1 (head rhs1) = Some (h', L', rhs')" "dll h' L' ((ts @ [x]) @ xs)"
       "dll h' rhs' []" "\<forall>y. y \<notin> set (ts @ [x]) \<and> y \<notin> set xs \<longrightarrow> h' y = h1 y"
       "\<forall>y. val (h' y) = val (h1 y)" "Enable L' = Enable L1" "Enable rhs' = Enable rhs1"
    by blast
  have "drain_loop h L rhs (head rhs) = Some (h', L', rhs')"
    using hd x0 I(1) R(1) h1 by (subst drain_loop.simps) (simp add: Increment_def)
  moreover have "\<forall>y. y \<notin> set ts \<and> y \<notin> set (x # xs) \<longrightarrow> h' y = h y"
    using R(4) I(4) by auto
  moreover have "\<forall>y. val (h' y) = val (h y)" using R(5) I(5) by simp
  ultimately show ?case using R(2,3,6,7) I(6,7) by auto
qed


lemma plus_dll:
  assumes l: "dll h lhs xs" and r: "dll h rhs ys" and dj: "set xs \<inter> set ys = {}"
  shows "\<exists>h' tmp lhs' rhs'. plus h lhs rhs = Some (h', tmp, lhs', rhs') \<and>
      dll h' tmp (xs @ ys) \<and> dll h' lhs' [] \<and> dll h' rhs' [] \<and>
      (\<forall>y. y \<notin> set xs \<and> y \<notin> set ys \<longrightarrow> h' y = h y) \<and> (\<forall>y. val (h' y) = val (h y)) \<and>
      Enable tmp = (Enable lhs \<or> Enable rhs) \<and> Enable lhs' = Enable lhs \<and> Enable rhs' = Enable rhs"
proof -
  let ?t = "empty_list (Enable lhs \<or> Enable rhs)"
  have t: "dll h ?t []" by (rule dll_empty_list)
  from drain_loop_dll[OF t l] obtain h1 tmp1 lhs1 where
    A: "drain_loop h ?t lhs (head lhs) = Some (h1, tmp1, lhs1)" "dll h1 tmp1 ([] @ xs)"
       "dll h1 lhs1 []" "\<forall>y. y \<notin> set [] \<and> y \<notin> set xs \<longrightarrow> h1 y = h y"
       "\<forall>y. val (h1 y) = val (h y)" "Enable tmp1 = Enable ?t" "Enable lhs1 = Enable lhs"
    by auto
  have "\<forall>y\<in>set ys. h1 y = h y" using A(4) dj by auto
  from dll_frame[OF r this] have r1: "dll h1 rhs ys" .
  have t1: "dll h1 tmp1 xs" using A(2) by simp
  from drain_loop_dll[OF t1 r1 dj] obtain h2 tmp2 rhs2 where
    B: "drain_loop h1 tmp1 rhs (head rhs) = Some (h2, tmp2, rhs2)" "dll h2 tmp2 (xs @ ys)"
       "dll h2 rhs2 []" "\<forall>y. y \<notin> set xs \<and> y \<notin> set ys \<longrightarrow> h2 y = h1 y"
       "\<forall>y. val (h2 y) = val (h1 y)" "Enable tmp2 = Enable tmp1" "Enable rhs2 = Enable rhs"
    by blast
  have "dll h2 lhs1 []" using A(3) by (simp add: dll_def links_def)
  moreover have "plus h lhs rhs = Some (h2, tmp2, lhs1, rhs2)"
    using A(1) B(1) by (simp add: plus_def)
  moreover have "\<forall>y. y \<notin> set xs \<and> y \<notin> set ys \<longrightarrow> h2 y = h y" using A(4) B(4) by simp
  moreover have "\<forall>y. val (h2 y) = val (h y)" using A(5) B(5) by simp
  moreover have "Enable tmp2 = (Enable lhs \<or> Enable rhs)" using A(6) B(6) by (simp add: empty_list_def)
  ultimately show ?thesis using B(2,3,7) A(7) by auto
qed

text \<open>
  The loop of the heterogeneous move constructor: after the body has moved the element
  under the cursor to the tail of the new list, that element's \<open>next\<close> is null, so the
  increment ends the loop.
\<close>

lemma dll_last_next: "dll h L (xs @ [x]) \<Longrightarrow> next (h x) = 0"
  using succ_in_decomp[of xs x "[]"] by (simp add: dll_def links_def)

lemma move_from_loop_first:
  assumes l: "dll h L ts" and m: "dll h other (x # xs)" and dj: "set ts \<inter> set (x # xs) = {}"
  shows "\<exists>h' L' other'. move_from_loop h L other (head other) = Some (h', L', other') \<and>
      dll h' L' (ts @ [x]) \<and> dll h' other' xs \<and>
      (\<forall>y. y \<notin> set ts \<and> y \<notin> set (x # xs) \<longrightarrow> h' y = h y) \<and> (\<forall>y. val (h' y) = val (h y)) \<and>
      Enable L' = Enable L \<and> Enable other' = Enable other"
proof -
  from m have hd: "head other = x" and x0: "x \<noteq> 0" by (auto simp: dll_def links_def)
  have xin: "x \<in> set (x # xs)" by simp
  from InsertLast_from_dll[OF l m dj xin]
  obtain h1 L1 o1 where
    I: "InsertLast_from h L x other = Some (h1, L1, o1, x)" "dll h1 L1 (ts @ [x])"
       "dll h1 o1 (remove1 x (x # xs))"
       "\<forall>y. y \<notin> set ts \<and> y \<notin> set (x # xs) \<longrightarrow> h1 y = h y" "\<forall>y. val (h1 y) = val (h y)"
       "Enable L1 = Enable L" "Enable o1 = Enable other"
    by blast
  have n: "next (h1 x) = 0" using dll_last_next[OF I(2)] .
  have "move_from_loop h1 L1 o1 0 = Some (h1, L1, o1)" by (subst move_from_loop.simps) simp
  then have "move_from_loop h L other (head other) = Some (h1, L1, o1)"
    using hd x0 I(1) n by (subst move_from_loop.simps) (simp add: Increment_def)
  then show ?thesis using I by auto
qed

lemma InsertLast_all_dll:
  "dll h L ts \<Longrightarrow> distinct (ts @ xs) \<Longrightarrow> \<forall>x\<in>set xs. x \<noteq> 0 \<and> prev (h x) = 0 \<and> next (h x) = 0 \<Longrightarrow>
   \<exists>h' L'. InsertLast_all h L xs = Some (h', L') \<and> dll h' L' (ts @ xs) \<and>
     (\<forall>y. y \<notin> set ts \<and> y \<notin> set xs \<longrightarrow> h' y = h y) \<and> (\<forall>y. val (h' y) = val (h y)) \<and>
     Enable L' = Enable L"
proof (induction xs arbitrary: h L ts)
  case Nil
  then show ?case by simp
next
  case (Cons x xs)
  have z: "0 \<notin> set ts" using Cons.prems(1) by (simp add: dll_def links_def)
  have o: "outside h x ts" using Cons.prems(2,3) z by (auto simp: outside_def)
  from InsertLast_dll[OF Cons.prems(1) o] obtain h1 L1 where
    I: "InsertLast h L x = Some (h1, L1, x)" "dll h1 L1 (ts @ [x])"
       "\<forall>y. y \<notin> set ts \<and> y \<noteq> x \<and> (y = 0 \<or> (y \<noteq> prev (h x) \<and> y \<noteq> next (h x))) \<longrightarrow> h1 y = h y"
       "\<forall>y. val (h1 y) = val (h y)" "Enable L1 = Enable L"
    by blast
  have F: "\<forall>y. y \<notin> set ts \<and> y \<noteq> x \<longrightarrow> h1 y = h y"
    using I(3) Cons.prems(3) by auto
  have d: "distinct ((ts @ [x]) @ xs)" using Cons.prems(2) by simp
  have p: "\<forall>y\<in>set xs. y \<noteq> 0 \<and> prev (h1 y) = 0 \<and> next (h1 y) = 0"
    using F Cons.prems(2,3) by auto
  from Cons.IH[OF I(2) d p] obtain h' L' where
    R: "InsertLast_all h1 L1 xs = Some (h', L')" "dll h' L' ((ts @ [x]) @ xs)"
       "\<forall>y. y \<notin> set (ts @ [x]) \<and> y \<notin> set xs \<longrightarrow> h' y = h1 y" "\<forall>y. val (h' y) = val (h1 y)"
       "Enable L' = Enable L1"
    by blast
  have "InsertLast_all h L (x # xs) = Some (h', L')" using I(1) R(1) by simp
  moreover have "\<forall>y. y \<notin> set ts \<and> y \<notin> set (x # xs) \<longrightarrow> h' y = h y" using R(3) F by auto
  moreover have "\<forall>y. val (h' y) = val (h y)" using R(4) I(4) by simp
  ultimately show ?case using R(2,5) I(5) by auto
qed

section \<open>Comparison and the invariant\<close>

lemma links_next_suffix: "links h (as @ x # xs) \<Longrightarrow> x \<noteq> 0 \<and> next (h x) = hd0 xs"
  using succ_in_decomp[of as x xs] by (simp add: links_def)

lemma links_suffix_nz: "links h (as @ xs) \<Longrightarrow> (hd0 xs = 0) = (xs = [])"
  by (cases xs) (auto simp: links_def)

lemma std_equal_links:
  "links h (as @ xs) \<Longrightarrow> links h (bs @ ys) \<Longrightarrow>
   std_equal eq h (hd0 xs) (hd0 ys) = Some (spec_equal eq (map h xs) (map h ys))"
proof (induction xs arbitrary: as bs ys)
  case Nil
  then show ?case using links_suffix_nz[OF Nil(2)]
    by (subst std_equal.simps) (auto simp: spec_equal_def)
next
  case (Cons x xs)
  from links_next_suffix[OF Cons.prems(1)] have x: "x \<noteq> 0" "next (h x) = hd0 xs" by auto
  show ?case
  proof (cases ys)
    case Nil
    then show ?thesis using x by (subst std_equal.simps) (simp add: spec_equal_def)
  next
    case (Cons y ys')
    from links_next_suffix[of h bs y ys'] Cons.prems(2) Cons
    have y: "y \<noteq> 0" "next (h y) = hd0 ys'" by auto
    have l1: "links h ((as @ [x]) @ xs)" using Cons.prems(1) by simp
    have l2: "links h ((bs @ [y]) @ ys')" using Cons.prems(2) Cons by simp
    from Cons.IH[OF l1 l2]
    have "std_equal eq h (hd0 xs) (hd0 ys') = Some (spec_equal eq (map h xs) (map h ys'))" .
    then show ?thesis using x y Cons
      by (subst std_equal.simps) (auto simp: spec_equal_def)
  qed
qed

lemma lex_links:
  "links h (as @ xs) \<Longrightarrow> links h (bs @ ys) \<Longrightarrow>
   lexicographical_compare_three_way cmp h (hd0 xs) (hd0 ys) =
     Some (spec_compare cmp (map h xs) (map h ys))"
proof (induction xs arbitrary: as bs ys)
  case Nil
  then show ?case using links_suffix_nz[OF Nil(2)]
    by (subst lexicographical_compare_three_way.simps) (auto simp: spec_compare_def)
next
  case (Cons x xs)
  from links_next_suffix[OF Cons.prems(1)] have x: "x \<noteq> 0" "next (h x) = hd0 xs" by auto
  show ?case
  proof (cases ys)
    case Nil
    then show ?thesis using x
      by (subst lexicographical_compare_three_way.simps) (simp add: spec_compare_def)
  next
    case (Cons y ys')
    from links_next_suffix[of h bs y ys'] Cons.prems(2) Cons
    have y: "y \<noteq> 0" "next (h y) = hd0 ys'" by auto
    have l1: "links h ((as @ [x]) @ xs)" using Cons.prems(1) by simp
    have l2: "links h ((bs @ [y]) @ ys')" using Cons.prems(2) Cons by simp
    from Cons.IH[OF l1 l2]
    have "lexicographical_compare_three_way cmp h (hd0 xs) (hd0 ys') =
          Some (spec_compare cmp (map h xs) (map h ys'))" .
    then show ?thesis using x y Cons
      by (subst lexicographical_compare_three_way.simps) (auto simp: spec_compare_def)
  qed
qed

lemma spec_equal_nth:
  "spec_equal eq vs ws = (length vs = length ws \<and> (\<forall>i<length vs. eq (vs ! i) (ws ! i)))"
  by (auto simp: spec_equal_def list_all_length)

lemma spec_compare_prefix:
  "length vs < length ws \<Longrightarrow> \<forall>i<length vs. cmp (vs ! i) (ws ! i) = Equivalent \<Longrightarrow>
   spec_compare cmp vs ws = Less"
proof -
  assume a: "length vs < length ws" "\<forall>i<length vs. cmp (vs ! i) (ws ! i) = Equivalent"
  have "find (\<lambda>(v, w). cmp v w \<noteq> Equivalent) (zip vs ws) = None"
    using a by (auto simp: find_None_iff in_set_zip)
  then show ?thesis using a by (simp add: spec_compare_def)
qed


lemma Detach_idem: "Detach h n = Some h1 \<Longrightarrow> Detach h1 n = Some h1"
proof -
  assume D: "Detach h n = Some h1"
  then have n0: "n \<noteq> 0" by (auto simp: Detach_def split: if_splits)
  from Detach_frame[OF n0, of h] D have "prev (h1 n) = 0" "next (h1 n) = 0" by auto
  from Detach_detached[of n h1, OF n0 this] show ?thesis .
qed

lemma InsertNext_after_Detach: "Detach h n = Some h1 \<Longrightarrow> InsertNext h L c n = InsertNext h1 L c n"
  using Detach_idem[of h n h1] by (simp add: InsertNext_def)

lemma InsertPrev_after_Detach: "Detach h n = Some h1 \<Longrightarrow> InsertPrev h L c n = InsertPrev h1 L c n"
  using Detach_idem[of h n h1] by (simp add: InsertPrev_def)

text \<open>
  A same-list insertion of a node that is an element of another list \<open>M\<close>: the steps
  common to \<open>InsertPrev\<close> and \<open>InsertNext\<close>.
\<close>

lemma steal_Detach:
  assumes l: "dll h L xs" and m: "dll h M ys" and dj: "set xs \<inter> set ys = {}" and x: "x \<in> set ys"
  shows "\<exists>h1. Detach h x = Some h1 \<and> links h1 (remove1 x ys) \<and> dll h1 L xs \<and> outside h1 x xs \<and>
           prev (h1 x) = 0 \<and> next (h1 x) = 0 \<and> (\<forall>y. val (h1 y) = val (h y)) \<and>
           (\<forall>y. y \<notin> set ys \<longrightarrow> h1 y = h y)"
proof -
  from m have lm: "links h ys" by (simp add: dll_def)
  from Detach_links[OF lm x] obtain h1 where
    D: "Detach h x = Some h1" "links h1 (remove1 x ys)" "prev (h1 x) = 0" "next (h1 x) = 0"
       "\<forall>y. y \<notin> set ys \<longrightarrow> h1 y = h y" "\<forall>y. val (h1 y) = val (h y)" by blast
  have "\<forall>y\<in>set xs. h1 y = h y" using D(5) dj by auto
  from dll_frame[OF l this] have l1: "dll h1 L xs" .
  have z: "0 \<notin> set xs" "0 \<notin> set ys" using l m by (auto simp: dll_def links_def)
  have "outside h1 x xs" using D(3,4) x dj z by (auto simp: outside_def)
  then show ?thesis using D l1 by auto
qed

lemma steal_frame:
  assumes lk: "links h1 (remove1 x ys)" and d: "distinct ys" and dj: "set xs \<inter> set ys = {}"
    and F: "\<forall>y. y \<notin> set xs \<and> y \<noteq> x \<and> (y = 0 \<or> (y \<noteq> prev (h1 x) \<and> y \<noteq> next (h1 x))) \<longrightarrow> h2 y = h1 y"
    and R: "prev (h1 x) = 0" "next (h1 x) = 0"
  shows "links h2 (remove1 x ys)"
proof -
  have "\<forall>z\<in>set (remove1 x ys). h2 z = h1 z"
  proof
    fix z assume z: "z \<in> set (remove1 x ys)"
    then have "z \<notin> set xs" "z \<noteq> x" using d dj by auto
    then show "h2 z = h1 z" using F R by (cases "z = 0") auto
  qed
  from links_frame[OF lk this] show ?thesis .
qed

lemma InsertNext_steal:
  assumes l: "dll h L xs" and m: "dll h M ys" and dj: "set xs \<inter> set ys = {}" and x: "x \<in> set ys"
    and c: "xs \<noteq> [] \<longrightarrow> c \<in> set xs"
  shows "\<exists>h' L'. InsertNext h L c x = Some (h', L', x) \<and>
          dll h' L' (if xs = [] then [x] else insert_after c x xs) \<and> links h' (remove1 x ys)"
proof -
  from steal_Detach[OF l m dj x] obtain h1 where
    D: "Detach h x = Some h1" "links h1 (remove1 x ys)" "dll h1 L xs" "outside h1 x xs"
       "prev (h1 x) = 0" "next (h1 x) = 0" by blast
  from InsertNext_dll[OF D(3) D(4) c] obtain h2 L2 where
    I: "InsertNext h1 L c x = Some (h2, L2, x)"
       "dll h2 L2 (if xs = [] then [x] else insert_after c x xs)"
       "\<forall>y. y \<notin> set xs \<and> y \<noteq> x \<and> (y = 0 \<or> (y \<noteq> prev (h1 x) \<and> y \<noteq> next (h1 x))) \<longrightarrow> h2 y = h1 y"
    by blast
  have d: "distinct ys" using m by (simp add: dll_def links_def)
  from steal_frame[OF D(2) d dj I(3) D(5,6)] have "links h2 (remove1 x ys)" .
  then show ?thesis using I(1,2) InsertNext_after_Detach[OF D(1)] by auto
qed

lemma InsertPrev_steal:
  assumes l: "dll h L xs" and m: "dll h M ys" and dj: "set xs \<inter> set ys = {}" and x: "x \<in> set ys"
    and c: "xs \<noteq> [] \<longrightarrow> c \<in> set xs"
  shows "\<exists>h' L'. InsertPrev h L c x = Some (h', L', x) \<and>
          dll h' L' (if xs = [] then [x] else insert_before c x xs) \<and> links h' (remove1 x ys)"
proof -
  from steal_Detach[OF l m dj x] obtain h1 where
    D: "Detach h x = Some h1" "links h1 (remove1 x ys)" "dll h1 L xs" "outside h1 x xs"
       "prev (h1 x) = 0" "next (h1 x) = 0" by blast
  from InsertPrev_dll[OF D(3) D(4) c] obtain h2 L2 where
    I: "InsertPrev h1 L c x = Some (h2, L2, x)"
       "dll h2 L2 (if xs = [] then [x] else insert_before c x xs)"
       "\<forall>y. y \<notin> set xs \<and> y \<noteq> x \<and> (y = 0 \<or> (y \<noteq> prev (h1 x) \<and> y \<noteq> next (h1 x))) \<longrightarrow> h2 y = h1 y"
    by blast
  have d: "distinct ys" using m by (simp add: dll_def links_def)
  from steal_frame[OF D(2) d dj I(3) D(5,6)] have "links h2 (remove1 x ys)" .
  then show ?thesis using I(1,2) InsertPrev_after_Detach[OF D(1)] by auto
qed

lemma spec_compare_Cons:
  "spec_compare cmp (v # vs) (w # ws) =
     (if cmp v w \<noteq> Equivalent then cmp v w else spec_compare cmp vs ws)"
  by (simp add: spec_compare_def)

lemma spec_compare_first_diff:
  assumes "k < length vs" "k < length ws" "\<forall>i<k. cmp (vs ! i) (ws ! i) = Equivalent"
    and "cmp (vs ! k) (ws ! k) \<noteq> Equivalent"
  shows "spec_compare cmp vs ws = cmp (vs ! k) (ws ! k)"
  using assms
proof (induction vs arbitrary: ws k)
  case Nil
  then show ?case by simp
next
  case (Cons v vs)
  then obtain w ws' where ws: "ws = w # ws'" by (cases ws) auto
  show ?case
  proof (cases k)
    case 0
    then show ?thesis using Cons.prems ws by (simp add: spec_compare_Cons)
  next
    case (Suc j)
    have e: "cmp v w = Equivalent" using Cons.prems(3) ws Suc by auto
    have "spec_compare cmp vs ws' = cmp (vs ! j) (ws' ! j)"
      using Cons.prems ws Suc by (intro Cons.IH) auto
    then show ?thesis using e ws Suc by (simp add: spec_compare_Cons)
  qed
qed

lemma spec_compare_all_equal:
  "length vs = length ws \<Longrightarrow> \<forall>i<length vs. cmp (vs ! i) (ws ! i) = Equivalent \<Longrightarrow>
   spec_compare cmp vs ws = Equivalent"
proof -
  assume a: "length vs = length ws" "\<forall>i<length vs. cmp (vs ! i) (ws ! i) = Equivalent"
  have "find (\<lambda>(v, w). cmp v w \<noteq> Equivalent) (zip vs ws) = None"
    using a by (auto simp: find_None_iff in_set_zip)
  then show ?thesis using a by (simp add: spec_compare_def)
qed

section \<open>The example lists satisfy the invariant\<close>

lemma ex_dll: "dll ex_h ex_L [1, 2, 3]"
  by (simp add: dll_def links_def ex_h_def ex_L_def pred_in_def)

lemma ex_dll4: "dll ex_h ex_L4 [4]"
  by (simp add: dll_def links_def ex_h_def ex_L4_def pred_in_def)

lemma dll_distinct: "dll h L xs \<Longrightarrow> distinct xs \<and> 0 \<notin> set xs"
  by (simp add: dll_def links_def)

lemma hd0_tl_succ: "distinct xs \<Longrightarrow> x = hd0 xs \<Longrightarrow> x \<in> set xs \<Longrightarrow> succ_in xs x = hd0 (tl xs)"
  by (cases xs) (auto simp: succ_in_Cons)

section \<open>The heterogeneous move constructor, and inserting an element of another list\<close>

lemma move_construct_from_first:
  assumes "dll h other (x # xs)"
  shows "\<exists>h' L' other'. move_construct_from en h other = Some (h', L', other') \<and>
           dll h' L' [x] \<and> dll h' other' xs \<and> Enable L' = en \<and> Enable other' = Enable other"
proof -
  have dj: "set [] \<inter> set (x # xs) = {}" by simp
  from move_from_loop_first[OF dll_empty_list assms dj, of en]
  show ?thesis by (auto simp: move_construct_from_def empty_list_def)
qed


lemma steal_traversals:
  assumes m: "dll h M ys" and x: "x \<in> set ys" and lk: "links h' (remove1 x ys)"
  shows "(x \<noteq> head M \<longrightarrow> traverse h' M = Some (remove1 x ys)) \<and>
         (x \<noteq> last_p M \<longrightarrow> rtraverse h' M = Some (rev (remove1 x ys))) \<and>
         x \<notin> set (remove1 x ys) \<and>
         (Enable M \<longrightarrow> unat (GetLength M) = length (remove1 x ys) + 1)"
proof -
  have d: "distinct ys" "0 \<notin> set ys" using dll_distinct[OF m] by auto
  have hm: "head M = hd0 ys" "last_p M = hd0 (rev ys)" using m by (auto simp: dll_def)
  have a: "x \<noteq> head M \<longrightarrow> traverse h' M = Some (remove1 x ys)"
    using links_walk[OF lk] hm d by (auto simp: traverse_def hd0_remove1)
  have b: "x \<noteq> last_p M \<longrightarrow> rtraverse h' M = Some (rev (remove1 x ys))"
    using links_rwalk[OF lk] hm d by (auto simp: rtraverse_def hd0_rev_remove1)
  have c: "Enable M \<longrightarrow> unat (GetLength M) = length (remove1 x ys) + 1"
    using dll_GetLength[OF m] length_pos_if_in_set[OF x] x by (simp add: length_remove1)
  show ?thesis using a b c d by simp
qed

section \<open>Every operation keeps the invariant\<close>












section \<open>What an insertion returns\<close>

text \<open>An insertion with a non-null node is defined even on a list that holds stale links.\<close>

lemma insert_defined:
  assumes "newNode \<noteq> 0" and "(head L = 0) = (last_p L = 0)" and "IsEmpty L \<or> curNode \<noteq> 0"
  shows "(\<exists>h' L'. InsertPrev h L curNode newNode = Some (h', L', newNode)) \<and>
         (\<exists>h' L'. InsertNext h L curNode newNode = Some (h', L', newNode)) \<and>
         (\<exists>h' L'. InsertHead h L newNode = Some (h', L', newNode)) \<and>
         (\<exists>h' L'. InsertLast h L newNode = Some (h', L', newNode)) \<and>
         (\<forall>h' L' other other' r.
            InsertPrev_from h L curNode newNode other = Some (h', L', other', r) \<or>
            InsertNext_from h L curNode newNode other = Some (h', L', other', r) \<or>
            InsertHead_from h L newNode other = Some (h', L', other', r) \<or>
            InsertLast_from h L newNode other = Some (h', L', other', r) \<longrightarrow> r = newNode)"
proof -
  have P: "\<And>c. IsEmpty L \<or> c \<noteq> 0 \<Longrightarrow> \<exists>h' L'. InsertPrev h L c newNode = Some (h', L', newNode)"
    using assms(1)
    by (auto simp: InsertPrev_def Detach_def AttachPrev_def Let_def)
  have N: "\<And>c. IsEmpty L \<or> c \<noteq> 0 \<Longrightarrow> \<exists>h' L'. InsertNext h L c newNode = Some (h', L', newNode)"
    using assms(1)
    by (auto simp: InsertNext_def Detach_def AttachNext_def Let_def)
  have H: "IsEmpty L \<or> head L \<noteq> 0" and T: "IsEmpty L \<or> last_p L \<noteq> 0"
    using assms(2) by (auto simp: IsEmpty_def)
  have rP: "\<And>h L c r h' L'. InsertPrev h L c newNode = Some (h', L', r) \<Longrightarrow> r = newNode"
    by (auto simp: InsertPrev_def split: bind_splits if_splits)
  have rN: "\<And>h L c r h' L'. InsertNext h L c newNode = Some (h', L', r) \<Longrightarrow> r = newNode"
    by (auto simp: InsertNext_def split: bind_splits if_splits)
  have F: "\<forall>h' L' other other' r.
            InsertPrev_from h L curNode newNode other = Some (h', L', other', r) \<or>
            InsertNext_from h L curNode newNode other = Some (h', L', other', r) \<or>
            InsertHead_from h L newNode other = Some (h', L', other', r) \<or>
            InsertLast_from h L newNode other = Some (h', L', other', r) \<longrightarrow> r = newNode"
    by (auto simp: InsertPrev_from_def InsertNext_from_def InsertHead_from_def InsertLast_from_def
        InsertHead_def InsertLast_def split: bind_splits dest: rP rN)
  show ?thesis
    using P[OF assms(3)] N[OF assms(3)] P[OF H] N[OF T] F
    unfolding InsertHead_def InsertLast_def by blast
qed

lemma insert_before_shape:
  assumes "xs \<noteq> [] \<longrightarrow> c \<in> set xs" and "zs = (if xs = [] then [n] else insert_before c n xs)"
  shows "n \<in> set zs \<and> (xs = [] \<longrightarrow> zs = [n]) \<and>
         (xs \<noteq> [] \<longrightarrow> (\<exists>as bs. xs = as @ c # bs \<and> zs = as @ n # c # bs))"
proof (cases "xs = []")
  case True
  then show ?thesis using assms by simp
next
  case False
  then have c: "c \<in> set xs" using assms(1) by simp
  from insert_before_decomp[OF c, of n] obtain as bs where
    "xs = as @ c # bs" "insert_before c n xs = as @ n # c # bs" by blast
  then show ?thesis using False assms(2) by auto
qed

lemma insert_after_shape:
  assumes "xs \<noteq> [] \<longrightarrow> c \<in> set xs" and "zs = (if xs = [] then [n] else insert_after c n xs)"
  shows "n \<in> set zs \<and> (xs = [] \<longrightarrow> zs = [n]) \<and>
         (xs \<noteq> [] \<longrightarrow> (\<exists>as bs. xs = as @ c # bs \<and> zs = as @ c # n # bs))"
proof (cases "xs = []")
  case True
  then show ?thesis using assms by simp
next
  case False
  then have c: "c \<in> set xs" using assms(1) by simp
  from insert_after_decomp[OF c, of n] obtain as bs where
    "xs = as @ c # bs" "insert_after c n xs = as @ c # n # bs" by blast
  then show ?thesis using False assms(2) by auto
qed

lemma insert_cursor:
  assumes l: "dll h L xs" and o: "outside h n xs" and c: "xs \<noteq> [] \<longrightarrow> c \<in> set xs"
  shows "(\<exists>h' L' zs. InsertPrev h L c n = Some (h', L', n) \<and> traverse h' L' = Some zs \<and>
            n \<in> set zs \<and> (xs = [] \<longrightarrow> zs = [n]) \<and>
            (xs \<noteq> [] \<longrightarrow> (\<exists>as bs. xs = as @ c # bs \<and> zs = as @ n # c # bs))) \<and>
         (\<exists>h' L' zs. InsertNext h L c n = Some (h', L', n) \<and> traverse h' L' = Some zs \<and>
            n \<in> set zs \<and> (xs = [] \<longrightarrow> zs = [n]) \<and>
            (xs \<noteq> [] \<longrightarrow> (\<exists>as bs. xs = as @ c # bs \<and> zs = as @ c # n # bs))) \<and>
         (\<exists>h' L'. InsertHead h L n = Some (h', L', n) \<and> traverse h' L' = Some (n # xs)) \<and>
         (\<exists>h' L'. InsertLast h L n = Some (h', L', n) \<and> traverse h' L' = Some (xs @ [n]))"
proof -
  from InsertPrev_dll[OF l o c] obtain h1 L1 where
    P: "InsertPrev h L c n = Some (h1, L1, n)"
       "dll h1 L1 (if xs = [] then [n] else insert_before c n xs)" by blast
  from InsertNext_dll[OF l o c] obtain h2 L2 where
    N: "InsertNext h L c n = Some (h2, L2, n)"
       "dll h2 L2 (if xs = [] then [n] else insert_after c n xs)" by blast
  from InsertHead_dll[OF l o] obtain h3 L3 where
    H: "InsertHead h L n = Some (h3, L3, n)" "dll h3 L3 (n # xs)" by blast
  from InsertLast_dll[OF l o] obtain h4 L4 where
    T: "InsertLast h L n = Some (h4, L4, n)" "dll h4 L4 (xs @ [n])" by blast
  have a: "\<exists>h' L' zs. InsertPrev h L c n = Some (h', L', n) \<and> traverse h' L' = Some zs \<and>
            n \<in> set zs \<and> (xs = [] \<longrightarrow> zs = [n]) \<and>
            (xs \<noteq> [] \<longrightarrow> (\<exists>as bs. xs = as @ c # bs \<and> zs = as @ n # c # bs))"
    using P(1) dll_traverse[OF P(2)] insert_before_shape[OF c refl, of n] by blast
  have b: "\<exists>h' L' zs. InsertNext h L c n = Some (h', L', n) \<and> traverse h' L' = Some zs \<and>
            n \<in> set zs \<and> (xs = [] \<longrightarrow> zs = [n]) \<and>
            (xs \<noteq> [] \<longrightarrow> (\<exists>as bs. xs = as @ c # bs \<and> zs = as @ c # n # bs))"
    using N(1) dll_traverse[OF N(2)] insert_after_shape[OF c refl, of n] by blast
  have d: "\<exists>h' L'. InsertHead h L n = Some (h', L', n) \<and> traverse h' L' = Some (n # xs)"
    using H(1) dll_traverse[OF H(2)] by blast
  have e: "\<exists>h' L'. InsertLast h L n = Some (h', L', n) \<and> traverse h' L' = Some (xs @ [n])"
    using T(1) dll_traverse[OF T(2)] by blast
  show ?thesis using a b d e by simp
qed

lemma insert_from_cursor:
  assumes l: "dll h L xs" and m: "dll h other ys" and dj: "set xs \<inter> set ys = {}"
    and n: "n \<in> set ys" and c: "xs \<noteq> [] \<longrightarrow> c \<in> set xs"
  shows "(\<exists>h' L' other' zs. InsertPrev_from h L c n other = Some (h', L', other', n) \<and>
            traverse h' L' = Some zs \<and> traverse h' other' = Some (remove1 n ys) \<and>
            n \<in> set zs \<and> (xs = [] \<longrightarrow> zs = [n]) \<and>
            (xs \<noteq> [] \<longrightarrow> (\<exists>as bs. xs = as @ c # bs \<and> zs = as @ n # c # bs))) \<and>
         (\<exists>h' L' other' zs. InsertNext_from h L c n other = Some (h', L', other', n) \<and>
            traverse h' L' = Some zs \<and> traverse h' other' = Some (remove1 n ys) \<and>
            n \<in> set zs \<and> (xs = [] \<longrightarrow> zs = [n]) \<and>
            (xs \<noteq> [] \<longrightarrow> (\<exists>as bs. xs = as @ c # bs \<and> zs = as @ c # n # bs))) \<and>
         (\<exists>h' L' other'. InsertHead_from h L n other = Some (h', L', other', n) \<and>
            traverse h' L' = Some (n # xs) \<and> traverse h' other' = Some (remove1 n ys)) \<and>
         (\<exists>h' L' other'. InsertLast_from h L n other = Some (h', L', other', n) \<and>
            traverse h' L' = Some (xs @ [n]) \<and> traverse h' other' = Some (remove1 n ys))"
proof -
  from InsertPrev_from_dll[OF l m dj n c] obtain h1 L1 o1 where
    P: "InsertPrev_from h L c n other = Some (h1, L1, o1, n)"
       "dll h1 L1 (if xs = [] then [n] else insert_before c n xs)" "dll h1 o1 (remove1 n ys)"
    by blast
  from InsertNext_from_dll[OF l m dj n c] obtain h2 L2 o2 where
    N: "InsertNext_from h L c n other = Some (h2, L2, o2, n)"
       "dll h2 L2 (if xs = [] then [n] else insert_after c n xs)" "dll h2 o2 (remove1 n ys)"
    by blast
  from InsertHead_from_dll[OF l m dj n] obtain h3 L3 o3 where
    H: "InsertHead_from h L n other = Some (h3, L3, o3, n)" "dll h3 L3 (n # xs)"
       "dll h3 o3 (remove1 n ys)" by blast
  from InsertLast_from_dll[OF l m dj n] obtain h4 L4 o4 where
    T: "InsertLast_from h L n other = Some (h4, L4, o4, n)" "dll h4 L4 (xs @ [n])"
       "dll h4 o4 (remove1 n ys)" by blast
  have a: "\<exists>h' L' other' zs. InsertPrev_from h L c n other = Some (h', L', other', n) \<and>
            traverse h' L' = Some zs \<and> traverse h' other' = Some (remove1 n ys) \<and>
            n \<in> set zs \<and> (xs = [] \<longrightarrow> zs = [n]) \<and>
            (xs \<noteq> [] \<longrightarrow> (\<exists>as bs. xs = as @ c # bs \<and> zs = as @ n # c # bs))"
    using P(1) dll_traverse[OF P(2)] dll_traverse[OF P(3)] insert_before_shape[OF c refl, of n]
    by blast
  have b: "\<exists>h' L' other' zs. InsertNext_from h L c n other = Some (h', L', other', n) \<and>
            traverse h' L' = Some zs \<and> traverse h' other' = Some (remove1 n ys) \<and>
            n \<in> set zs \<and> (xs = [] \<longrightarrow> zs = [n]) \<and>
            (xs \<noteq> [] \<longrightarrow> (\<exists>as bs. xs = as @ c # bs \<and> zs = as @ c # n # bs))"
    using N(1) dll_traverse[OF N(2)] dll_traverse[OF N(3)] insert_after_shape[OF c refl, of n]
    by blast
  have d: "\<exists>h' L' other'. InsertHead_from h L n other = Some (h', L', other', n) \<and>
            traverse h' L' = Some (n # xs) \<and> traverse h' other' = Some (remove1 n ys)"
    using H(1) dll_traverse[OF H(2)] dll_traverse[OF H(3)] by blast
  have e: "\<exists>h' L' other'. InsertLast_from h L n other = Some (h', L', other', n) \<and>
            traverse h' L' = Some (xs @ [n]) \<and> traverse h' other' = Some (remove1 n ys)"
    using T(1) dll_traverse[OF T(2)] dll_traverse[OF T(3)] by blast
  show ?thesis using a b d e by simp
qed

lemma insert_result_cursor:
  "\<forall>h' L' other' r.
      InsertPrev h L c n = Some (h', L', r) \<or> InsertNext h L c n = Some (h', L', r) \<or>
      InsertHead h L n = Some (h', L', r) \<or> InsertLast h L n = Some (h', L', r) \<or>
      InsertPrev_from h L c n other = Some (h', L', other', r) \<or>
      InsertNext_from h L c n other = Some (h', L', other', r) \<or>
      InsertHead_from h L n other = Some (h', L', other', r) \<or>
      InsertLast_from h L n other = Some (h', L', other', r) \<longrightarrow> r = n"
proof -
  have rP: "\<And>h L c r h' L'. InsertPrev h L c n = Some (h', L', r) \<Longrightarrow> r = n"
    by (auto simp: InsertPrev_def split: bind_splits if_splits)
  have rN: "\<And>h L c r h' L'. InsertNext h L c n = Some (h', L', r) \<Longrightarrow> r = n"
    by (auto simp: InsertNext_def split: bind_splits if_splits)
  show ?thesis
    by (auto simp: InsertPrev_from_def InsertNext_from_def InsertHead_from_def InsertLast_from_def
        InsertHead_def InsertLast_def split: bind_splits dest: rP rN)
qed

section \<open>Claims\<close>

text \<open>
  C9.  \<open>Clear()\<close> sets \<open>head\<close> and \<open>last\<close> to null and, where the length is tracked, the
  counter to zero, so the list is empty and \<open>GetLength()\<close> is zero whatever it held; the
  store is returned as it was, so the \<open>prev\<close> and \<open>next\<close> of every element are unchanged.
\<close>

theorem C9_Clear_resets_list_only:
  "Clear h L = (h', L') \<Longrightarrow>
   head L' = 0 \<and> last_p L' = 0 \<and> IsEmpty L' \<and> (Enable L \<longrightarrow> GetLength L' = 0) \<and>
   h' = h \<and> (\<forall>x. prev (h' x) = prev (h x) \<and> next (h' x) = next (h x))"
  by (auto simp: Clear_def Let_def SetToZero_def IsEmpty_def GetLength_def split: if_splits)

theorem C9_Clear_witness:
  "IsEmpty (snd (Clear ex_h ex_L)) \<and> GetLength (snd (Clear ex_h ex_L)) = 0 \<and>
   next (fst (Clear ex_h ex_L) 1) = 2 \<and> prev (fst (Clear ex_h ex_L) 2) = 1"
  using C9_Clear_resets_list_only [of ex_h ex_L "fst (Clear ex_h ex_L)" "snd (Clear ex_h ex_L)"]
  by (simp add: ex_h_def ex_L_def)

text \<open>
  C10.  Each of \<open>InsertPrev\<close>, \<open>InsertNext\<close>, \<open>InsertHead\<close> and \<open>InsertLast\<close>, called on a
  well-formed list holding \<open>xs\<close> with a node \<open>newNode\<close> outside it (and a \<open>curNode\<close> that is
  an element when the list is not empty), returns the cursor \<open>newNode\<close>, and that cursor
  designates a newly inserted element: \<open>newNode\<close> was not in \<open>xs\<close> and is in the resulting
  traversal, immediately before \<open>curNode\<close>, immediately after \<open>curNode\<close>, first, and last
  respectively (the sole element when the list was empty), the other elements keeping
  their order.  The overloads that take the source list do the same for a \<open>newNode\<close> that
  is an element of a disjoint source list, which loses it.  And whenever any of the eight
  returns at all, the cursor it returns is \<open>newNode\<close>.
\<close>

theorem C10_insert_returns_cursor_to_inserted_node:
  assumes "dll h L xs"
  shows
    "(outside h newNode xs \<and> (xs \<noteq> [] \<longrightarrow> curNode \<in> set xs) \<longrightarrow>
        newNode \<notin> set xs \<and>
        (\<exists>h' L' zs. InsertPrev h L curNode newNode = Some (h', L', newNode) \<and>
           traverse h' L' = Some zs \<and> newNode \<in> set zs \<and> (xs = [] \<longrightarrow> zs = [newNode]) \<and>
           (xs \<noteq> [] \<longrightarrow> (\<exists>as bs. xs = as @ curNode # bs \<and> zs = as @ newNode # curNode # bs))) \<and>
        (\<exists>h' L' zs. InsertNext h L curNode newNode = Some (h', L', newNode) \<and>
           traverse h' L' = Some zs \<and> newNode \<in> set zs \<and> (xs = [] \<longrightarrow> zs = [newNode]) \<and>
           (xs \<noteq> [] \<longrightarrow> (\<exists>as bs. xs = as @ curNode # bs \<and> zs = as @ curNode # newNode # bs))) \<and>
        (\<exists>h' L'. InsertHead h L newNode = Some (h', L', newNode) \<and>
           traverse h' L' = Some (newNode # xs)) \<and>
        (\<exists>h' L'. InsertLast h L newNode = Some (h', L', newNode) \<and>
           traverse h' L' = Some (xs @ [newNode]))) \<and>
     (dll h other ys \<and> set xs \<inter> set ys = {} \<and> newNode \<in> set ys \<and>
      (xs \<noteq> [] \<longrightarrow> curNode \<in> set xs) \<longrightarrow>
        newNode \<notin> set xs \<and>
        (\<exists>h' L' other' zs. InsertPrev_from h L curNode newNode other = Some (h', L', other', newNode) \<and>
           traverse h' L' = Some zs \<and> traverse h' other' = Some (remove1 newNode ys) \<and>
           newNode \<in> set zs \<and> (xs = [] \<longrightarrow> zs = [newNode]) \<and>
           (xs \<noteq> [] \<longrightarrow> (\<exists>as bs. xs = as @ curNode # bs \<and> zs = as @ newNode # curNode # bs))) \<and>
        (\<exists>h' L' other' zs. InsertNext_from h L curNode newNode other = Some (h', L', other', newNode) \<and>
           traverse h' L' = Some zs \<and> traverse h' other' = Some (remove1 newNode ys) \<and>
           newNode \<in> set zs \<and> (xs = [] \<longrightarrow> zs = [newNode]) \<and>
           (xs \<noteq> [] \<longrightarrow> (\<exists>as bs. xs = as @ curNode # bs \<and> zs = as @ curNode # newNode # bs))) \<and>
        (\<exists>h' L' other'. InsertHead_from h L newNode other = Some (h', L', other', newNode) \<and>
           traverse h' L' = Some (newNode # xs) \<and>
           traverse h' other' = Some (remove1 newNode ys)) \<and>
        (\<exists>h' L' other'. InsertLast_from h L newNode other = Some (h', L', other', newNode) \<and>
           traverse h' L' = Some (xs @ [newNode]) \<and>
           traverse h' other' = Some (remove1 newNode ys))) \<and>
     (\<forall>h' L' other' r.
        InsertPrev h L curNode newNode = Some (h', L', r) \<or>
        InsertNext h L curNode newNode = Some (h', L', r) \<or>
        InsertHead h L newNode = Some (h', L', r) \<or>
        InsertLast h L newNode = Some (h', L', r) \<or>
        InsertPrev_from h L curNode newNode other = Some (h', L', other', r) \<or>
        InsertNext_from h L curNode newNode other = Some (h', L', other', r) \<or>
        InsertHead_from h L newNode other = Some (h', L', other', r) \<or>
        InsertLast_from h L newNode other = Some (h', L', other', r) \<longrightarrow> r = newNode)"
proof (intro conjI impI)
  assume a: "outside h newNode xs \<and> (xs \<noteq> [] \<longrightarrow> curNode \<in> set xs)"
  then have o: "outside h newNode xs" and c: "xs \<noteq> [] \<longrightarrow> curNode \<in> set xs" by auto
  show "newNode \<notin> set xs" using o by (simp add: outside_def)
  note R = insert_cursor[OF assms o c]
  show "\<exists>h' L' zs. InsertPrev h L curNode newNode = Some (h', L', newNode) \<and>
           traverse h' L' = Some zs \<and> newNode \<in> set zs \<and> (xs = [] \<longrightarrow> zs = [newNode]) \<and>
           (xs \<noteq> [] \<longrightarrow> (\<exists>as bs. xs = as @ curNode # bs \<and> zs = as @ newNode # curNode # bs))"
    using R by (elim conjE)
  show "\<exists>h' L' zs. InsertNext h L curNode newNode = Some (h', L', newNode) \<and>
           traverse h' L' = Some zs \<and> newNode \<in> set zs \<and> (xs = [] \<longrightarrow> zs = [newNode]) \<and>
           (xs \<noteq> [] \<longrightarrow> (\<exists>as bs. xs = as @ curNode # bs \<and> zs = as @ curNode # newNode # bs))"
    using R by (elim conjE)
  show "\<exists>h' L'. InsertHead h L newNode = Some (h', L', newNode) \<and>
           traverse h' L' = Some (newNode # xs)"
    using R by (elim conjE)
  show "\<exists>h' L'. InsertLast h L newNode = Some (h', L', newNode) \<and>
           traverse h' L' = Some (xs @ [newNode])"
    using R by (elim conjE)
next
  assume a: "dll h other ys \<and> set xs \<inter> set ys = {} \<and> newNode \<in> set ys \<and>
      (xs \<noteq> [] \<longrightarrow> curNode \<in> set xs)"
  then have m: "dll h other ys" and dj: "set xs \<inter> set ys = {}" and n: "newNode \<in> set ys"
    and c: "xs \<noteq> [] \<longrightarrow> curNode \<in> set xs" by auto
  show "newNode \<notin> set xs" using dj n by auto
  note R = insert_from_cursor[OF assms m dj n c]
  show "\<exists>h' L' other' zs. InsertPrev_from h L curNode newNode other = Some (h', L', other', newNode) \<and>
           traverse h' L' = Some zs \<and> traverse h' other' = Some (remove1 newNode ys) \<and>
           newNode \<in> set zs \<and> (xs = [] \<longrightarrow> zs = [newNode]) \<and>
           (xs \<noteq> [] \<longrightarrow> (\<exists>as bs. xs = as @ curNode # bs \<and> zs = as @ newNode # curNode # bs))"
    using R by (elim conjE)
  show "\<exists>h' L' other' zs. InsertNext_from h L curNode newNode other = Some (h', L', other', newNode) \<and>
           traverse h' L' = Some zs \<and> traverse h' other' = Some (remove1 newNode ys) \<and>
           newNode \<in> set zs \<and> (xs = [] \<longrightarrow> zs = [newNode]) \<and>
           (xs \<noteq> [] \<longrightarrow> (\<exists>as bs. xs = as @ curNode # bs \<and> zs = as @ curNode # newNode # bs))"
    using R by (elim conjE)
  show "\<exists>h' L' other'. InsertHead_from h L newNode other = Some (h', L', other', newNode) \<and>
           traverse h' L' = Some (newNode # xs) \<and>
           traverse h' other' = Some (remove1 newNode ys)"
    using R by (elim conjE)
  show "\<exists>h' L' other'. InsertLast_from h L newNode other = Some (h', L', other', newNode) \<and>
           traverse h' L' = Some (xs @ [newNode]) \<and>
           traverse h' other' = Some (remove1 newNode ys)"
    using R by (elim conjE)
next
  show "\<forall>h' L' other' r.
        InsertPrev h L curNode newNode = Some (h', L', r) \<or>
        InsertNext h L curNode newNode = Some (h', L', r) \<or>
        InsertHead h L newNode = Some (h', L', r) \<or>
        InsertLast h L newNode = Some (h', L', r) \<or>
        InsertPrev_from h L curNode newNode other = Some (h', L', other', r) \<or>
        InsertNext_from h L curNode newNode other = Some (h', L', other', r) \<or>
        InsertHead_from h L newNode other = Some (h', L', other', r) \<or>
        InsertLast_from h L newNode other = Some (h', L', other', r) \<longrightarrow> r = newNode"
    by (rule insert_result_cursor)
qed

theorem C10_insert_cursor_witness:
  "(\<exists>h' L'. InsertPrev ex_h ex_L 2 5 = Some (h', L', 5) \<and> traverse h' L' = Some [1, 5, 2, 3]) \<and>
   (\<exists>h' L'. InsertNext ex_h ex_L 2 5 = Some (h', L', 5) \<and> traverse h' L' = Some [1, 2, 5, 3]) \<and>
   (\<exists>h' L'. InsertHead ex_h ex_L 5 = Some (h', L', 5) \<and> traverse h' L' = Some [5, 1, 2, 3]) \<and>
   (\<exists>h' L'. InsertLast ex_h ex_L 5 = Some (h', L', 5) \<and> traverse h' L' = Some [1, 2, 3, 5]) \<and>
   (\<exists>h' L' other'. InsertPrev_from ex_h ex_L 2 4 ex_L4 = Some (h', L', other', 4) \<and>
      traverse h' L' = Some [1, 4, 2, 3] \<and> traverse h' other' = Some []) \<and>
   (\<exists>h' L' other'. InsertNext_from ex_h ex_L 2 4 ex_L4 = Some (h', L', other', 4) \<and>
      traverse h' L' = Some [1, 2, 4, 3] \<and> traverse h' other' = Some []) \<and>
   (\<exists>h' L' other'. InsertHead_from ex_h ex_L 4 ex_L4 = Some (h', L', other', 4) \<and>
      traverse h' L' = Some [4, 1, 2, 3] \<and> traverse h' other' = Some []) \<and>
   (\<exists>h' L' other'. InsertLast_from ex_h ex_L 4 ex_L4 = Some (h', L', other', 4) \<and>
      traverse h' L' = Some [1, 2, 3, 4] \<and> traverse h' other' = Some [])"
proof -
  have o: "outside ex_h 5 [1, 2, 3] \<and> ([1, 2, 3 :: ptr] \<noteq> [] \<longrightarrow> 2 \<in> set [1, 2, 3 :: ptr])"
    by (simp add: outside_def ex_h_def)
  have m: "dll ex_h ex_L4 [4] \<and> set [1, 2, 3 :: ptr] \<inter> set [4] = {} \<and> (4 :: ptr) \<in> set [4] \<and>
      ([1, 2, 3 :: ptr] \<noteq> [] \<longrightarrow> 2 \<in> set [1, 2, 3 :: ptr])"
    using ex_dll4 by simp
  from C10_insert_returns_cursor_to_inserted_node [OF ex_dll, where newNode = 5 and curNode = 2] o
  have a: "(\<exists>h' L'. InsertPrev ex_h ex_L 2 5 = Some (h', L', 5) \<and> traverse h' L' = Some [1, 5, 2, 3]) \<and>
   (\<exists>h' L'. InsertNext ex_h ex_L 2 5 = Some (h', L', 5) \<and> traverse h' L' = Some [1, 2, 5, 3]) \<and>
   (\<exists>h' L'. InsertHead ex_h ex_L 5 = Some (h', L', 5) \<and> traverse h' L' = Some [5, 1, 2, 3]) \<and>
   (\<exists>h' L'. InsertLast ex_h ex_L 5 = Some (h', L', 5) \<and> traverse h' L' = Some [1, 2, 3, 5])"
    by (auto simp: Cons_eq_append_conv)
  from C10_insert_returns_cursor_to_inserted_node [OF ex_dll, where newNode = 4 and curNode = 2
      and other = ex_L4 and ys = "[4]"] m
  have b: "(\<exists>h' L' other'. InsertPrev_from ex_h ex_L 2 4 ex_L4 = Some (h', L', other', 4) \<and>
      traverse h' L' = Some [1, 4, 2, 3] \<and> traverse h' other' = Some []) \<and>
   (\<exists>h' L' other'. InsertNext_from ex_h ex_L 2 4 ex_L4 = Some (h', L', other', 4) \<and>
      traverse h' L' = Some [1, 2, 4, 3] \<and> traverse h' other' = Some []) \<and>
   (\<exists>h' L' other'. InsertHead_from ex_h ex_L 4 ex_L4 = Some (h', L', other', 4) \<and>
      traverse h' L' = Some [4, 1, 2, 3] \<and> traverse h' other' = Some []) \<and>
   (\<exists>h' L' other'. InsertLast_from ex_h ex_L 4 ex_L4 = Some (h', L', other', 4) \<and>
      traverse h' L' = Some [1, 2, 3, 4] \<and> traverse h' other' = Some [])"
    by (auto simp: Cons_eq_append_conv)
  show ?thesis using a b by simp
qed

text \<open>
  C4.  For a list holding \<open>xs\<close> and an element \<open>x\<close> of it, \<open>Remove(x)\<close> returns; afterwards
  the forward traversal is \<open>xs\<close> without \<open>x\<close> (so it never yields \<open>x\<close>), the reverse
  traversal is its reverse, and a tracked length is exactly one less.  If \<open>x\<close> was the
  head, the new head is the element that followed \<open>x\<close>; if \<open>x\<close> was the last, the new last
  is the element that preceded \<open>x\<close>; removing the sole element leaves \<open>head\<close> and \<open>last\<close>
  null.
\<close>

theorem C4_Remove:
  assumes "dll h L xs" and "x \<in> set xs"
  shows "\<exists>h' L'. Remove h L x = Some (h', L') \<and>
           traverse h' L' = Some (remove1 x xs) \<and> x \<notin> set (remove1 x xs) \<and>
           rtraverse h' L' = Some (rev (remove1 x xs)) \<and>
           (Enable L \<longrightarrow> unat (GetLength L') + 1 = unat (GetLength L)) \<and>
           (x = head L \<longrightarrow> head L' = next (h x) \<and> head L' = hd0 (tl xs)) \<and>
           (x = last_p L \<longrightarrow> last_p L' = prev (h x) \<and> last_p L' = hd0 (tl (rev xs))) \<and>
           (xs = [x] \<longrightarrow> head L' = 0 \<and> last_p L' = 0 \<and> IsEmpty L')"
proof -
  from Remove_dll[OF assms] obtain h' L' where
    R: "Remove h L x = Some (h', L')" "dll h' L' (remove1 x xs)" "Enable L' = Enable L"
       "head L' = (if x = head L then next (h x) else head L)"
       "last_p L' = (if x = last_p L then prev (h x) else last_p L)"
    by blast
  have d: "distinct xs" "0 \<notin> set xs" using dll_distinct[OF assms(1)] by auto
  have lk: "next (h x) = succ_in xs x" "prev (h x) = pred_in xs x" "head L = hd0 xs"
    "last_p L = hd0 (rev xs)"
    using assms by (auto simp: dll_def links_def)
  have len: "Enable L \<longrightarrow> unat (GetLength L') + 1 = unat (GetLength L)"
    using dll_GetLength[OF R(2)] dll_GetLength[OF assms(1)] R(3) assms(2)
      length_pos_if_in_set[OF assms(2)]
    by (simp add: length_remove1)
  have hd: "x = head L \<longrightarrow> head L' = next (h x) \<and> head L' = hd0 (tl xs)"
    using R(4) lk hd0_tl_succ[OF d(1) _ assms(2)] by auto
  have "distinct (rev xs)" "x \<in> set (rev xs)" using d assms(2) by auto
  from hd0_tl_succ[OF this(1) _ this(2)]
  have la: "x = last_p L \<longrightarrow> last_p L' = prev (h x) \<and> last_p L' = hd0 (tl (rev xs))"
    using R(5) lk by (auto simp: pred_in_def)
  have em: "xs = [x] \<longrightarrow> head L' = 0 \<and> last_p L' = 0 \<and> IsEmpty L'"
    using R(2) dll_Nil[of h' L'] by auto
  show ?thesis
    using R(1) dll_traverse[OF R(2)] dll_rtraverse[OF R(2)] d(1) len hd la em by auto
qed

theorem C4_Remove_witness:
  "\<exists>h' L'. Remove ex_h ex_L 2 = Some (h', L') \<and> traverse h' L' = Some [1, 3] \<and>
     rtraverse h' L' = Some [3, 1] \<and> unat (GetLength L') + 1 = 3"
  using C4_Remove [OF ex_dll, of 2] by (auto simp: ex_L_def GetLength_def)

text \<open>
  C3.  For an element \<open>X\<close> of list \<open>L1\<close> and a position \<open>pos\<close> in a list \<open>L2\<close> disjoint from
  it, \<open>L2.InsertNext(pos, X, L1)\<close> returns; afterwards \<open>L1\<close>'s traversal is its former one
  without \<open>X\<close> and its tracked length is one less, and \<open>L2\<close>'s traversal is its former one
  with \<open>X\<close> immediately after \<open>pos\<close> and its tracked length is one more.
\<close>

theorem C3_splice:
  assumes "dll h L1 xs1" and "dll h L2 xs2" and "set xs2 \<inter> set xs1 = {}"
    and "X \<in> set xs1" and "pos \<in> set xs2"
  shows "\<exists>h' L2' L1'. InsertNext_from h L2 pos X L1 = Some (h', L2', L1', X) \<and>
           traverse h' L1' = Some (remove1 X xs1) \<and> X \<notin> set (remove1 X xs1) \<and>
           (\<exists>as bs. xs2 = as @ pos # bs \<and> traverse h' L2' = Some (as @ pos # X # bs)) \<and>
           (Enable L1 \<longrightarrow> unat (GetLength L1') + 1 = unat (GetLength L1)) \<and>
           (Enable L2 \<longrightarrow> unat (GetLength L2') = unat (GetLength L2) + 1)"
proof -
  have c: "xs2 \<noteq> [] \<longrightarrow> pos \<in> set xs2" using assms(5) by simp
  have ne: "xs2 \<noteq> []" using assms(5) by auto
  from InsertNext_from_dll[OF assms(2) assms(1) assms(3) assms(4) c] ne obtain h' L2' L1' where
    R: "InsertNext_from h L2 pos X L1 = Some (h', L2', L1', X)"
       "dll h' L2' (insert_after pos X xs2)" "dll h' L1' (remove1 X xs1)"
       "Enable L2' = Enable L2" "Enable L1' = Enable L1"
    by auto
  from insert_after_decomp[OF assms(5), of X] obtain as bs where
    ab: "xs2 = as @ pos # bs" "insert_after pos X xs2 = as @ pos # X # bs" by blast
  have d: "distinct xs1" using dll_distinct[OF assms(1)] by simp
  have l1: "Enable L1 \<longrightarrow> unat (GetLength L1') + 1 = unat (GetLength L1)"
    using dll_GetLength[OF R(3)] dll_GetLength[OF assms(1)] R(5) assms(4)
      length_pos_if_in_set[OF assms(4)]
    by (simp add: length_remove1)
  have l2: "Enable L2 \<longrightarrow> unat (GetLength L2') = unat (GetLength L2) + 1"
    using dll_GetLength[OF R(2)] dll_GetLength[OF assms(2)] R(4) assms(5)
    by (auto simp: length_insert_after)
  have "traverse h' L2' = Some (as @ pos # X # bs)" using dll_traverse[OF R(2)] ab by simp
  then show ?thesis using R(1) dll_traverse[OF R(3)] d ab(1) l1 l2 by auto
qed

theorem C3_splice_witness:
  "\<exists>h' L2' L1'. InsertNext_from ex_h ex_L4 4 2 ex_L = Some (h', L2', L1', 2) \<and>
     traverse h' L1' = Some [1, 3] \<and> traverse h' L2' = Some [4, 2] \<and>
     unat (GetLength L1') + 1 = 3 \<and> unat (GetLength L2') = 2"
proof -
  have a: "set [4 :: ptr] \<inter> set [1, 2, 3] = {}" by simp
  have b: "(2 :: ptr) \<in> set [1, 2, 3]" "(4 :: ptr) \<in> set [4]" by simp_all
  from C3_splice [OF ex_dll ex_dll4 a b] show ?thesis
    by (auto simp: ex_L_def ex_L4_def GetLength_def Cons_eq_append_conv)
qed

text \<open>
  C6.  \<open>InsertLast\<close> called in turn on \<open>n\<close> distinct, detached elements, starting from an
  empty list that tracks its length, returns every time; afterwards \<open>GetLength()\<close> is \<open>n\<close>,
  the forward traversal is the elements in insertion order, and the reverse traversal is
  the reverse of that order.
\<close>

theorem C6_InsertLast_sequence:
  assumes "distinct xs" and "\<forall>x\<in>set xs. x \<noteq> 0 \<and> prev (h x) = 0 \<and> next (h x) = 0"
  shows "\<exists>h' L'. InsertLast_all h (empty_list True) xs = Some (h', L') \<and>
           unat (GetLength L') = length xs \<and>
           traverse h' L' = Some xs \<and> rtraverse h' L' = Some (rev xs)"
proof -
  have "distinct ([] @ xs)" using assms(1) by simp
  from InsertLast_all_dll[OF dll_empty_list this assms(2), of True] obtain h' L' where
    R: "InsertLast_all h (empty_list True) xs = Some (h', L')" "dll h' L' xs"
       "Enable L' = Enable (empty_list True)" by auto
  have "Enable L'" using R(3) by (simp add: empty_list_def)
  then show ?thesis
    using R(1) dll_traverse[OF R(2)] dll_rtraverse[OF R(2)] dll_GetLength[OF R(2)] by auto
qed

theorem C6_InsertLast_witness:
  "\<exists>h' L'. InsertLast_all ex_h (empty_list True) [5, 6, 7] = Some (h', L') \<and>
     unat (GetLength L') = 3 \<and> traverse h' L' = Some [5, 6, 7] \<and> rtraverse h' L' = Some [7, 6, 5]"
proof -
  have a: "distinct [5, 6, 7 :: ptr]" by simp
  have b: "\<forall>x\<in>set [5, 6, 7 :: ptr]. x \<noteq> 0 \<and> prev (ex_h x) = 0 \<and> next (ex_h x) = 0"
    by (simp add: ex_h_def)
  from C6_InsertLast_sequence [OF a b] show ?thesis
    by (simp del: InsertLast_all.simps add: eval_nat_numeral)
qed

text \<open>
  C5.  For two lists over disjoint sets of elements, \<open>list1 + list2\<close> returns a list whose
  forward traversal is \<open>list1\<close>'s former traversal followed by \<open>list2\<close>'s; it tracks its
  length exactly when one of the operands does, and then its length is the sum of the two
  numbers of elements (the sum of the operands' lengths when both track theirs); both
  operands are left empty.
\<close>

theorem C5_plus:
  assumes "dll h list1 xs" and "dll h list2 ys" and "set xs \<inter> set ys = {}"
  shows "\<exists>h' tmp list1' list2'. plus h list1 list2 = Some (h', tmp, list1', list2') \<and>
           traverse h' tmp = Some (xs @ ys) \<and>
           Enable tmp = (Enable list1 \<or> Enable list2) \<and>
           (Enable tmp \<longrightarrow> unat (GetLength tmp) = length xs + length ys) \<and>
           (Enable list1 \<and> Enable list2 \<longrightarrow>
              unat (GetLength tmp) = unat (GetLength list1) + unat (GetLength list2)) \<and>
           IsEmpty list1' \<and> IsEmpty list2' \<and>
           traverse h' list1' = Some [] \<and> traverse h' list2' = Some [] \<and>
           (Enable list1 \<longrightarrow> GetLength list1' = 0) \<and> (Enable list2 \<longrightarrow> GetLength list2' = 0)"
proof -
  from plus_dll[OF assms] obtain h' tmp l1 l2 where
    R: "plus h list1 list2 = Some (h', tmp, l1, l2)" "dll h' tmp (xs @ ys)" "dll h' l1 []"
       "dll h' l2 []" "Enable tmp = (Enable list1 \<or> Enable list2)" "Enable l1 = Enable list1"
       "Enable l2 = Enable list2"
    by blast
  have "Enable tmp \<longrightarrow> unat (GetLength tmp) = length xs + length ys"
    using dll_GetLength[OF R(2)] by simp
  moreover have "Enable list1 \<and> Enable list2 \<longrightarrow>
      unat (GetLength tmp) = unat (GetLength list1) + unat (GetLength list2)"
    using dll_GetLength[OF R(2)] dll_GetLength[OF assms(1)] dll_GetLength[OF assms(2)] R(5)
    by simp
  moreover have "IsEmpty l1" "IsEmpty l2" "Enable list1 \<longrightarrow> GetLength l1 = 0"
    "Enable list2 \<longrightarrow> GetLength l2 = 0"
    using dll_Nil[OF R(3)] dll_Nil[OF R(4)] R(6,7) by (auto simp: GetLength_def)
  ultimately show ?thesis
    using R(1,5) dll_traverse[OF R(2)] dll_traverse[OF R(3)] dll_traverse[OF R(4)] by auto
qed

theorem C5_plus_witness:
  "\<exists>h' tmp list1' list2'. plus ex_h ex_L ex_L4 = Some (h', tmp, list1', list2') \<and>
     traverse h' tmp = Some [1, 2, 3, 4] \<and> Enable tmp \<and> unat (GetLength tmp) = 4 \<and>
     IsEmpty list1' \<and> IsEmpty list2' \<and> GetLength list1' = 0 \<and> GetLength list2' = 0"
proof -
  have a: "set [1, 2, 3 :: ptr] \<inter> set [4] = {}" by simp
  from C5_plus [OF ex_dll ex_dll4 a] show ?thesis
    by (auto simp: ex_L_def ex_L4_def)
qed

text \<open>
  C8.  For two lists holding \<open>xs\<close> and \<open>ys\<close>, \<open>operator==\<close> returns, and returns true exactly
  when the two have the same number of elements and the elements are equal position by
  position in traversal order.  \<open>operator<=>\<close> returns the lexicographic comparison of the
  two traversals: the result of comparing the elements at the first position where they
  are not equivalent; \<open>Less\<close> when \<open>xs\<close> is shorter and equivalent to a prefix of \<open>ys\<close>; and
  \<open>Equivalent\<close> when the lengths agree and all positions are equivalent.
\<close>

theorem C8_comparison:
  assumes "dll h lhs xs" and "dll h rhs ys"
  shows "list_eq eq h lhs rhs =
           Some (length xs = length ys \<and> (\<forall>i<length xs. eq (h (xs ! i)) (h (ys ! i)))) \<and>
         list_cmp cmp h lhs rhs = Some (spec_compare cmp (map h xs) (map h ys)) \<and>
         (\<forall>k. k < length xs \<and> k < length ys \<and>
              (\<forall>i<k. cmp (h (xs ! i)) (h (ys ! i)) = Equivalent) \<and>
              cmp (h (xs ! k)) (h (ys ! k)) \<noteq> Equivalent \<longrightarrow>
              list_cmp cmp h lhs rhs = Some (cmp (h (xs ! k)) (h (ys ! k)))) \<and>
         (length xs < length ys \<and> (\<forall>i<length xs. cmp (h (xs ! i)) (h (ys ! i)) = Equivalent) \<longrightarrow>
              list_cmp cmp h lhs rhs = Some Less) \<and>
         (length xs = length ys \<and> (\<forall>i<length xs. cmp (h (xs ! i)) (h (ys ! i)) = Equivalent) \<longrightarrow>
              list_cmp cmp h lhs rhs = Some Equivalent)"
proof -
  have lx: "links h ([] @ xs)" "head lhs = hd0 xs" using assms(1) by (auto simp: dll_def)
  have ly: "links h ([] @ ys)" "head rhs = hd0 ys" using assms(2) by (auto simp: dll_def)
  have E: "list_eq eq h lhs rhs = Some (spec_equal eq (map h xs) (map h ys))"
    using std_equal_links[OF lx(1) ly(1)] lx(2) ly(2) by (simp add: list_eq_def)
  have C: "list_cmp cmp h lhs rhs = Some (spec_compare cmp (map h xs) (map h ys))"
    using lex_links[OF lx(1) ly(1)] lx(2) ly(2) by (simp add: list_cmp_def)
  have E': "spec_equal eq (map h xs) (map h ys) =
      (length xs = length ys \<and> (\<forall>i<length xs. eq (h (xs ! i)) (h (ys ! i))))"
    by (auto simp: spec_equal_nth)
  have D: "\<forall>k. k < length xs \<and> k < length ys \<and>
              (\<forall>i<k. cmp (h (xs ! i)) (h (ys ! i)) = Equivalent) \<and>
              cmp (h (xs ! k)) (h (ys ! k)) \<noteq> Equivalent \<longrightarrow>
              spec_compare cmp (map h xs) (map h ys) = cmp (h (xs ! k)) (h (ys ! k))"
  proof (intro allI impI)
    fix k
    assume a: "k < length xs \<and> k < length ys \<and>
              (\<forall>i<k. cmp (h (xs ! i)) (h (ys ! i)) = Equivalent) \<and>
              cmp (h (xs ! k)) (h (ys ! k)) \<noteq> Equivalent"
    have "spec_compare cmp (map h xs) (map h ys) = cmp (map h xs ! k) (map h ys ! k)"
      using a by (intro spec_compare_first_diff) auto
    then show "spec_compare cmp (map h xs) (map h ys) = cmp (h (xs ! k)) (h (ys ! k))"
      using a by simp
  qed
  have P: "length xs < length ys \<and> (\<forall>i<length xs. cmp (h (xs ! i)) (h (ys ! i)) = Equivalent) \<longrightarrow>
      spec_compare cmp (map h xs) (map h ys) = Less"
    using spec_compare_prefix[of "map h xs" "map h ys" cmp] by auto
  have Q: "length xs = length ys \<and> (\<forall>i<length xs. cmp (h (xs ! i)) (h (ys ! i)) = Equivalent) \<longrightarrow>
      spec_compare cmp (map h xs) (map h ys) = Equivalent"
    using spec_compare_all_equal[of "map h xs" "map h ys" cmp] by auto
  show ?thesis using E E' C D P Q by simp
qed

theorem C8_comparison_witness:
  "list_eq (\<lambda>a b. val a = val b) ex_h ex_L ex_L4 = Some False \<and>
   list_eq (\<lambda>a b. val a = val b) ex_h ex_L ex_L = Some True \<and>
   list_cmp ex_cmp ex_h ex_L ex_L4 = Some Less \<and>
   list_cmp ex_cmp ex_h ex_L4 ex_L = Some Greater \<and>
   list_cmp ex_cmp ex_h ex_L ex_L = Some Equivalent"
  using C8_comparison [OF ex_dll ex_dll4, of "\<lambda>a b. val a = val b" ex_cmp]
    C8_comparison [OF ex_dll4 ex_dll, of "\<lambda>a b. val a = val b" ex_cmp]
    C8_comparison [OF ex_dll ex_dll, of "\<lambda>a b. val a = val b" ex_cmp]
  by (simp add: spec_compare_def ex_cmp_def ex_h_def)

text \<open>
  C1.  The claim is that the heterogeneous move constructor moves every element of the
  source, in order, and leaves the source empty.  On the source list holding the elements
  at 1, 2 and 3 the constructor returns with the new list holding only the element at 1
  and the source still holding those at 2 and 3: the cursor is incremented after the
  element under it has become the tail of the new list, where its \<open>next\<close> is null.
\<close>

theorem C1_move_construct_from_stops_after_first:
  "\<exists>h' L' other'. move_construct_from True ex_h ex_L = Some (h', L', other') \<and>
     traverse h' L' = Some [1] \<and> traverse h' other' = Some [2, 3] \<and>
     \<not> IsEmpty other' \<and> GetLength L' = 1 \<and> GetLength other' = 2"
proof -
  from move_construct_from_first[OF ex_dll, of True] obtain h' L' other' where
    R: "move_construct_from True ex_h ex_L = Some (h', L', other')" "dll h' L' [1]"
       "dll h' other' [2, 3]" "Enable L'" "Enable other' = Enable ex_L" by auto
  have "GetLength L' = 1" "GetLength other' = 2"
    using R(2,3,4,5) by (auto simp: dll_def GetLength_def ex_L_def)
  then show ?thesis
    using R(1) dll_traverse[OF R(2)] dll_traverse[OF R(3)] dll_IsEmpty[OF R(3)] by auto
qed

text \<open>
  C2, as stated, fails.  The element at 1 is the head of the list holding 1, 2, 3; after it
  is inserted behind 4 in the second list by the two-argument \<open>InsertNext\<close>, the first list
  object is what it was: its \<open>head\<close> still designates 1, walking from its head reaches 1,
  and its tracked length is still 3.
\<close>

theorem C2_counterexample:
  "dll ex_h ex_L [1, 2, 3] \<and> dll ex_h ex_L4 [4] \<and>
   (\<exists>h' L'. InsertNext ex_h ex_L4 4 1 = Some (h', L', 1) \<and> traverse h' L' = Some [4, 1] \<and>
      traverse h' ex_L = Some [1] \<and> head ex_L = 1 \<and> GetLength ex_L = 3)"
proof -
  have "\<exists>h' L'. InsertNext ex_h ex_L4 4 1 = Some (h', L', 1) \<and> traverse h' L' = Some [4, 1] \<and>
      traverse h' ex_L = Some [1] \<and> head ex_L = 1 \<and> GetLength ex_L = 3"
    by (simp add: InsertNext_def Detach_def AttachNext_def Let_def set_prev_def set_next_def
      IsEmpty_def IncLength_def GetLength_def traverse_def walk.simps ex_h_def ex_L_def ex_L4_def)
  then show ?thesis using ex_dll ex_dll4 by simp
qed

text \<open>
  C2, amended.  For a node \<open>x\<close> that is an element of a list \<open>M\<close> and a list \<open>L\<close> disjoint
  from \<open>M\<close>, the two-argument \<open>InsertNext(cur, x)\<close> and \<open>InsertPrev(cur, x)\<close> on \<open>L\<close> return
  and link \<open>x\<close> at the requested position in \<open>L\<close>.  They take \<open>x\<close> out of \<open>M\<close>'s chain: the
  remaining elements of \<open>M\<close> are linked to one another without \<open>x\<close>.  The object \<open>M\<close> itself
  is not written: when \<open>x\<close> was not its head, walking from \<open>M\<close>'s head yields \<open>M\<close>'s former
  traversal without \<open>x\<close> (and likewise backwards from its last when \<open>x\<close> was not the last),
  and \<open>M\<close>'s tracked length is not decremented, so it is one more than the number of
  elements left.
\<close>

theorem C2_insert_attached_elsewhere:
  assumes "dll h L xs" and "dll h M ys" and "set xs \<inter> set ys = {}" and "x \<in> set ys"
    and "xs \<noteq> [] \<longrightarrow> cur \<in> set xs"
  shows "(\<exists>h' L'. InsertNext h L cur x = Some (h', L', x) \<and>
            dll h' L' (if xs = [] then [x] else insert_after cur x xs) \<and>
            links h' (remove1 x ys) \<and> x \<notin> set (remove1 x ys) \<and>
            (x \<noteq> head M \<longrightarrow> traverse h' M = Some (remove1 x ys)) \<and>
            (x \<noteq> last_p M \<longrightarrow> rtraverse h' M = Some (rev (remove1 x ys))) \<and>
            (Enable M \<longrightarrow> unat (GetLength M) = length (remove1 x ys) + 1)) \<and>
         (\<exists>h' L'. InsertPrev h L cur x = Some (h', L', x) \<and>
            dll h' L' (if xs = [] then [x] else insert_before cur x xs) \<and>
            links h' (remove1 x ys) \<and> x \<notin> set (remove1 x ys) \<and>
            (x \<noteq> head M \<longrightarrow> traverse h' M = Some (remove1 x ys)) \<and>
            (x \<noteq> last_p M \<longrightarrow> rtraverse h' M = Some (rev (remove1 x ys))) \<and>
            (Enable M \<longrightarrow> unat (GetLength M) = length (remove1 x ys) + 1))"
proof -
  from InsertNext_steal[OF assms] obtain h1 L1 where
    N: "InsertNext h L cur x = Some (h1, L1, x)"
       "dll h1 L1 (if xs = [] then [x] else insert_after cur x xs)" "links h1 (remove1 x ys)"
    by blast
  from InsertPrev_steal[OF assms] obtain h2 L2 where
    P: "InsertPrev h L cur x = Some (h2, L2, x)"
       "dll h2 L2 (if xs = [] then [x] else insert_before cur x xs)" "links h2 (remove1 x ys)"
    by blast
  show ?thesis
    using N P steal_traversals[OF assms(2) assms(4) N(3)] steal_traversals[OF assms(2) assms(4) P(3)]
    by simp
qed

theorem C2_insert_attached_elsewhere_witness:
  "(\<exists>h' L'. InsertNext ex_h ex_L4 4 2 = Some (h', L', 2) \<and> traverse h' L' = Some [4, 2] \<and>
      traverse h' ex_L = Some [1, 3] \<and> rtraverse h' ex_L = Some [3, 1] \<and>
      unat (GetLength ex_L) = 3) \<and>
   (\<exists>h' L'. InsertPrev ex_h ex_L4 4 2 = Some (h', L', 2) \<and> traverse h' L' = Some [2, 4] \<and>
      traverse h' ex_L = Some [1, 3] \<and> rtraverse h' ex_L = Some [3, 1] \<and>
      unat (GetLength ex_L) = 3)"
proof -
  have a: "set [4 :: ptr] \<inter> set [1, 2, 3] = {}" by simp
  have b: "(2 :: ptr) \<in> set [1, 2, 3]" by simp
  have c: "[4 :: ptr] \<noteq> [] \<longrightarrow> 4 \<in> set [4 :: ptr]" by simp
  have d: "(2 :: ptr) \<noteq> head ex_L" "(2 :: ptr) \<noteq> last_p ex_L" "Enable ex_L"
    by (simp_all add: ex_L_def)
  from C2_insert_attached_elsewhere [OF ex_dll4 ex_dll a b c] d
  show ?thesis
    using dll_traverse by (auto simp: eval_nat_numeral)
qed




end
